theory Spec2Isabelle
  imports Complex_Main "HOL-Library.Multiset"
begin

section \<open>JavaScript values used by the generator\<close>

text \<open>
  A JavaScript number is modelled by its mathematical value: the not-a-number value, a
  finite rational, or one of the two infinities. Rounding of a finite value to the nearest
  IEEE-754 double is not modelled (it changes no integer of magnitude up to \<open>2^53\<close>);
  the two range effects that decide truthiness are: a decimal literal too small for a
  double is zero and one too large is an infinity (\<open>round_range\<close> below).
\<close>

datatype jsnum = NaN | Fin rat | PInf | NInf

fun js_add :: "jsnum \<Rightarrow> jsnum \<Rightarrow> jsnum" where
  "js_add NaN _ = NaN"
| "js_add _ NaN = NaN"
| "js_add (Fin a) (Fin b) = Fin (a + b)"
| "js_add PInf NInf = NaN"
| "js_add NInf PInf = NaN"
| "js_add PInf _ = PInf"
| "js_add NInf _ = NInf"
| "js_add (Fin a) PInf = PInf"
| "js_add (Fin a) NInf = NInf"

fun js_neg :: "jsnum \<Rightarrow> jsnum" where
  "js_neg NaN = NaN"
| "js_neg (Fin a) = Fin (- a)"
| "js_neg PInf = NInf"
| "js_neg NInf = PInf"

definition js_sub :: "jsnum \<Rightarrow> jsnum \<Rightarrow> jsnum" where
  "js_sub a b = js_add a (js_neg b)"

fun js_mul :: "jsnum \<Rightarrow> jsnum \<Rightarrow> jsnum" where
  "js_mul NaN _ = NaN"
| "js_mul _ NaN = NaN"
| "js_mul (Fin a) (Fin b) = Fin (a * b)"
| "js_mul (Fin a) PInf = (if a = 0 then NaN else if 0 < a then PInf else NInf)"
| "js_mul (Fin a) NInf = (if a = 0 then NaN else if 0 < a then NInf else PInf)"
| "js_mul PInf (Fin b) = (if b = 0 then NaN else if 0 < b then PInf else NInf)"
| "js_mul NInf (Fin b) = (if b = 0 then NaN else if 0 < b then NInf else PInf)"
| "js_mul PInf PInf = PInf"
| "js_mul NInf NInf = PInf"
| "js_mul PInf NInf = NInf"
| "js_mul NInf PInf = NInf"

text \<open>\<open>x <= 0\<close>: every comparison with NaN is false.\<close>

fun js_le0 :: "jsnum \<Rightarrow> bool" where
  "js_le0 NaN = False"
| "js_le0 (Fin a) = (a \<le> 0)"
| "js_le0 PInf = False"
| "js_le0 NInf = True"

text \<open>Truthiness of a number, as \<open>||\<close> tests it: NaN and zero are falsy.\<close>

fun truthy :: "jsnum \<Rightarrow> bool" where
  "truthy NaN = False"
| "truthy (Fin a) = (a \<noteq> 0)"
| "truthy PInf = True"
| "truthy NInf = True"

text \<open>
  The sign a sort comparator's result is read by: negative, zero or positive; a NaN
  result counts as zero.
\<close>

fun js_sign :: "jsnum \<Rightarrow> int" where
  "js_sign NaN = 0"
| "js_sign (Fin a) = (if a < 0 then - 1 else if a = 0 then 0 else 1)"
| "js_sign PInf = 1"
| "js_sign NInf = - 1"

subsection \<open>Arrays: stable sort, find, findIndex\<close>

text \<open>
  \<open>Array.prototype.sort\<close> with a comparator is a stable sort: an element moves in front
  of another only when the comparator puts it strictly first. Insertion from the right
  end computes exactly that order.
\<close>

fun insert_by :: "('a \<Rightarrow> 'a \<Rightarrow> int) \<Rightarrow> 'a \<Rightarrow> 'a list \<Rightarrow> 'a list" where
  "insert_by cmp x [] = [x]"
| "insert_by cmp x (y # ys) = (if cmp x y \<le> 0 then x # y # ys else y # insert_by cmp x ys)"

fun sort_by :: "('a \<Rightarrow> 'a \<Rightarrow> int) \<Rightarrow> 'a list \<Rightarrow> 'a list" where
  "sort_by cmp [] = []"
| "sort_by cmp (x # xs) = insert_by cmp x (sort_by cmp xs)"

text \<open>\<open>findIndex\<close>, with \<open>None\<close> for the result -1.\<close>

fun findIndex :: "('a \<Rightarrow> bool) \<Rightarrow> 'a list \<Rightarrow> nat option" where
  "findIndex P [] = None"
| "findIndex P (x # xs) = (if P x then Some 0 else map_option Suc (findIndex P xs))"

text \<open>\<open>Array.prototype.join\<close> on strings.\<close>

fun join :: "string \<Rightarrow> string list \<Rightarrow> string" where
  "join sep [] = []"
| "join sep [x] = x"
| "join sep (x # y # ys) = x @ sep @ join sep (y # ys)"

text \<open>
  A \<open>Set\<close> built from an array keeps each value once, in the order of first insertion;
  a \<open>Map\<close> keeps its keys in the order of first insertion, and \<open>set\<close> on a present
  key replaces the value where the key stands.
\<close>

fun set_add :: "'a list \<Rightarrow> 'a \<Rightarrow> 'a list" where
  "set_add s x = (if x \<in> set s then s else s @ [x])"

definition new_Set :: "'a list \<Rightarrow> 'a list" where
  "new_Set xs = foldl set_add [] xs"

fun map_set :: "('k \<times> 'v) list \<Rightarrow> 'k \<Rightarrow> 'v \<Rightarrow> ('k \<times> 'v) list" where
  "map_set [] k v = [(k, v)]"
| "map_set ((k', v') # m) k v = (if k' = k then (k, v) # m else (k', v') # map_set m k v)"

section \<open>Data model\<close>

text \<open>
  A catalog element as \<open>readLayers\<close> builds it, a layer, and a picked trait: the element
  spread into a new object together with its render order \<open>_order\<close>.
\<close>

record element =
  id_elem :: string
  layer :: string
  name :: string
  weight :: jsnum
  path :: string

record layer_rec =
  id_layer :: string
  elements :: "element list"

record picked = element +
  order' :: nat

text \<open>
  The configuration object (\<open>config.js\<close>). The two rule tables are objects whose keys are
  trait ids; a key that is not configured reads as \<open>undefined\<close>.
\<close>

record config =
  editionSize :: nat
  shuffleMetadata :: bool
  rarityDelimiter :: string
  uniqueDnaTorrance :: int
  namePrefix :: string
  description :: string
  baseUri :: string
  extraMetadata :: "(string \<times> string) list"
  incompatible :: "string \<rightharpoonup> string list"
  requires :: "string \<rightharpoonup> string list"
  mandatoryLayers :: "string list"

section \<open>Layer catalog: \<open>parseWeight\<close>\<close>

text \<open>
  \<open>String.prototype.lastIndexOf\<close> with a search string: the greatest index at which the
  search string starts, or -1.
\<close>

fun lastIndexFrom :: "string \<Rightarrow> string \<Rightarrow> nat \<Rightarrow> int" where
  "lastIndexFrom s d 0 = (if take (length d) s = d then 0 else - 1)"
| "lastIndexFrom s d (Suc i) =
     (if take (length d) (drop (Suc i) s) = d then int (Suc i) else lastIndexFrom s d i)"

definition lastIndexOf :: "string \<Rightarrow> string \<Rightarrow> int" where
  "lastIndexOf s d =
     (if length s < length d then - 1 else lastIndexFrom s d (length s - length d))"

text \<open>
  \<open>path.parse(p).name\<close> for POSIX paths: trailing separators are dropped, the last
  component is the base, and the name is the base without its extension. The extension
  starts at the last dot of the base, unless that dot is the first character of the base
  or the base is \<open>..\<close> (which \<open>path.parse\<close> exempts only when the component does not
  directly follow the root).
\<close>

definition path_name :: "string \<Rightarrow> string" where
  "path_name p =
     (let q = rev (dropWhile (\<lambda>c. c = CHR ''/'') (rev p));
          base = rev (takeWhile (\<lambda>c. c \<noteq> CHR ''/'') (rev q));
          rooted = (q \<noteq> [] \<and> hd q = CHR ''/'' \<and> CHR ''/'' \<notin> set (tl q));
          d = lastIndexOf base ''.''
      in if d = - 1 \<or> d = 0 \<or> (base = ''..'' \<and> \<not> rooted) then base
         else take (nat d) base)"

text \<open>
  \<open>Number(string)\<close>: white space is trimmed, the empty string is 0, and the rest must
  be a decimal literal (optional sign; digits with an optional fraction and exponent, or
  \<open>Infinity\<close>) or an unsigned binary, octal or hexadecimal integer literal; anything else
  is NaN. Characters are bytes here, so the white space recognised is the ASCII one.
\<close>

definition is_ws :: "char \<Rightarrow> bool" where
  "is_ws c \<longleftrightarrow> (of_char c :: nat) \<in> {9, 10, 11, 12, 13, 32}"

definition trim :: "string \<Rightarrow> string" where
  "trim s = rev (dropWhile is_ws (rev (dropWhile is_ws s)))"

definition digit_val :: "char \<Rightarrow> nat option" where
  "digit_val c =
     (let n = (of_char c :: nat)
      in if 48 \<le> n \<and> n \<le> 57 then Some (n - 48)
         else if 97 \<le> n \<and> n \<le> 102 then Some (n - 87)
         else if 65 \<le> n \<and> n \<le> 70 then Some (n - 55)
         else None)"

fun digits_value :: "nat \<Rightarrow> string \<Rightarrow> nat \<Rightarrow> nat option" where
  "digits_value b [] acc = Some acc"
| "digits_value b (c # cs) acc =
     (case digit_val c of
        None \<Rightarrow> None
      | Some d \<Rightarrow> if d < b then digits_value b cs (acc * b + d) else None)"

text \<open>The two effects of rounding to a double that change truthiness or finiteness.\<close>

definition round_range :: "rat \<Rightarrow> jsnum" where
  "round_range v =
     (if \<bar>v\<bar> \<le> 1 / 2 ^ 1075 then Fin 0
      else if 2 ^ 1024 - 2 ^ 970 \<le> \<bar>v\<bar> then (if 0 < v then PInf else NInf)
      else Fin v)"

definition based_literal :: "nat \<Rightarrow> string \<Rightarrow> jsnum" where
  "based_literal b ds =
     (if ds = [] then NaN
      else case digits_value b ds 0 of None \<Rightarrow> NaN | Some n \<Rightarrow> round_range (of_nat n))"

text \<open>The exponent part after \<open>e\<close>: an optional sign and at least one digit.\<close>

definition exponent_value :: "string \<Rightarrow> int option" where
  "exponent_value s =
     (case s of
        [] \<Rightarrow> None
      | c # cs \<Rightarrow>
          if c = CHR ''-'' then (if cs = [] then None else map_option (\<lambda>n. - int n) (digits_value 10 cs 0))
          else if c = CHR ''+'' then (if cs = [] then None else map_option int (digits_value 10 cs 0))
          else map_option int (digits_value 10 s 0))"

definition unsigned_decimal :: "string \<Rightarrow> jsnum" where
  "unsigned_decimal s =
     (if s = ''Infinity'' then PInf
      else
        (let mant = takeWhile (\<lambda>c. c \<noteq> CHR ''e'' \<and> c \<noteq> CHR ''E'') s;
             after = dropWhile (\<lambda>c. c \<noteq> CHR ''e'' \<and> c \<noteq> CHR ''E'') s;
             ip = takeWhile (\<lambda>c. c \<noteq> CHR ''.'') mant;
             fp = drop 1 (dropWhile (\<lambda>c. c \<noteq> CHR ''.'') mant);
             ex = (if after = [] then Some 0 else exponent_value (tl after))
         in if ip = [] \<and> fp = [] then NaN
            else case (digits_value 10 (ip @ fp) 0, ex) of
                   (Some n, Some e) \<Rightarrow>
                     (let e' = e - int (length fp)
                      in round_range (if 0 \<le> e' then of_nat n * 10 ^ nat e'
                                      else of_nat n / 10 ^ nat (- e')))
                 | _ \<Rightarrow> NaN))"

definition js_Number :: "string \<Rightarrow> jsnum" where
  "js_Number str =
     (let s = trim str
      in if s = [] then Fin 0
         else if take 2 s = ''0x'' \<or> take 2 s = ''0X'' then based_literal 16 (drop 2 s)
         else if take 2 s = ''0o'' \<or> take 2 s = ''0O'' then based_literal 8 (drop 2 s)
         else if take 2 s = ''0b'' \<or> take 2 s = ''0B'' then based_literal 2 (drop 2 s)
         else if hd s = CHR ''-'' then js_neg (unsigned_decimal (tl s))
         else if hd s = CHR ''+'' then unsigned_decimal (tl s)
         else unsigned_decimal s)"

text \<open>\<open>parseWeight\<close>; the result object \<open>{ name, weight }\<close> is a pair.\<close>

definition parseWeight :: "config \<Rightarrow> string \<Rightarrow> string \<times> jsnum" where
  "parseWeight cfg filename =
     (let base = path_name filename;
          idx = lastIndexOf base (rarityDelimiter cfg)
      in if idx = - 1 then (base, Fin 1)
         else (take (nat idx) base,
               (let w = js_Number (drop (nat (idx + 1)) base)
                in if truthy w then w else Fin 1)))"

section \<open>Fingerprint\<close>

definition traitKey :: "string \<Rightarrow> string \<Rightarrow> string" where
  "traitKey layerName valueName = layerName @ '':'' @ valueName"

text \<open>
  \<open>dnaFromSelection\<close> sorts a copy of the selection with \<open>a.layer.localeCompare(b.layer)\<close>.
  The collation \<open>localeCompare\<close> belongs to the runtime's locale, so it is a parameter
  \<open>lc\<close> here, returning a negative, zero or positive integer.
\<close>

definition dnaFromSelection :: "(string \<Rightarrow> string \<Rightarrow> int) \<Rightarrow> ('a picked_scheme) list \<Rightarrow> string" where
  "dnaFromSelection lc selection =
     join ''|'' (map (\<lambda>s. layer s @ '':'' @ name s)
       (sort_by (\<lambda>a b. lc (layer a) (layer b)) selection))"


section \<open>Trait selector\<close>

text \<open>
  \<open>weightedPick\<close>. The argument \<open>u\<close> is the value \<open>Math.random()\<close> returned for this
  call. On an array without elements the result is \<open>undefined\<close>, here \<open>None\<close>.
\<close>

fun pick_scan :: "jsnum \<Rightarrow> element list \<Rightarrow> element option" where
  "pick_scan r [] = None"
| "pick_scan r (e # es) =
     (let r' = js_sub r (weight e) in if js_le0 r' then Some e else pick_scan r' es)"

definition weightedPick :: "element list \<Rightarrow> rat \<Rightarrow> element option" where
  "weightedPick els u =
     (let total = foldl (\<lambda>sum e. js_add sum (weight e)) (Fin 0) els;
          r = js_mul (Fin u) total
      in case pick_scan r els of
           Some e \<Rightarrow> Some e
         | None \<Rightarrow> (if els = [] then None else Some (last els)))"

definition violatesIncompatibilities :: "config \<Rightarrow> picked list \<Rightarrow> bool" where
  "violatesIncompatibilities cfg selection =
     (let chosen = new_Set (map (\<lambda>s. traitKey (layer s) (name s)) selection)
      in list_ex (\<lambda>k. case incompatible cfg k of
                         None \<Rightarrow> False
                       | Some bad \<Rightarrow> list_ex (\<lambda>b. b \<in> set chosen) bad) chosen)"

text \<open>\<open>String.prototype.split\<close> at a one-character separator.\<close>

fun split_on :: "char \<Rightarrow> string \<Rightarrow> string list" where
  "split_on c [] = [[]]"
| "split_on c (x # xs) =
     (if x = c then [] # split_on c xs
      else (case split_on c xs of p # ps \<Rightarrow> (x # p) # ps | [] \<Rightarrow> [[x]]))"

text \<open>
  \<open>const [layer, value] = target.split(":")\<close>: the first two parts; \<open>value\<close> is
  \<open>undefined\<close> (\<open>None\<close>) when the target holds no colon, and parts after the second are
  dropped.
\<close>

definition split_target :: "string \<Rightarrow> string \<times> string option" where
  "split_target target =
     (case split_on CHR '':'' target of
        [] \<Rightarrow> ([], None)
      | [l] \<Rightarrow> (l, None)
      | l # v # _ \<Rightarrow> (l, Some v))"

text \<open>
  \<open>enforceRequirements\<close>: the inner loop over the targets of one rule, then the loop
  over the chosen trait ids. The \<open>Map\<close> \<open>mustAdd\<close> is a list of (layer, value) entries.
\<close>

definition add_targets ::
  "(string \<times> string option) list \<Rightarrow> string list \<Rightarrow> (string \<times> string option) list" where
  "add_targets = foldl (\<lambda>mustAdd target. case split_target target of (l, v) \<Rightarrow> map_set mustAdd l v)"

definition enforceRequirements :: "config \<Rightarrow> picked list \<Rightarrow> (string \<times> string option) list" where
  "enforceRequirements cfg selection =
     (let chosen = new_Set (map (\<lambda>s. traitKey (layer s) (name s)) selection)
      in foldl (\<lambda>mustAdd k. case requires cfg k of
                  None \<Rightarrow> mustAdd
                | Some reqs \<Rightarrow> add_targets mustAdd reqs)
           [] chosen)"

text \<open>\<open>{ ...el, _order: order }\<close>\<close>

definition with_order :: "element \<Rightarrow> nat \<Rightarrow> picked" where
  "with_order el n = \<lparr>id_elem = id_elem el, layer = layer el, name = name el,
     weight = weight el, path = path el, order' = n\<rparr>"

text \<open>
  \<open>pickTraitsForLayers\<close>, one function per loop. Each carries the array \<open>picked\<close> and the
  counter \<open>order\<close>. The \<open>k\<close>-th call of \<open>Math.random\<close> in the run returns \<open>rnd k\<close>; the
  first loop makes one call per layer.

  The result \<open>None\<close> marks the two inputs on which JavaScript would put \<open>undefined\<close>
  into a field of a picked trait, which the records here cannot hold: a layer without
  elements (\<open>readLayers\<close> skips a folder without files, so the catalog has none) and an
  in-place override by a requirement target that holds no colon (the configuration asks
  for the format \<open>LayerName:TraitValue\<close>).
\<close>

fun draw_layers ::
  "layer_rec list \<Rightarrow> (nat \<Rightarrow> rat) \<Rightarrow> nat \<Rightarrow> picked list \<Rightarrow> nat \<Rightarrow> (picked list \<times> nat) option" where
  "draw_layers [] rnd k picked ord = Some (picked, ord)"
| "draw_layers (l # ls) rnd k picked ord =
     (case weightedPick (elements l) (rnd k) of
        None \<Rightarrow> None
      | Some el \<Rightarrow> draw_layers ls rnd (Suc k) (picked @ [with_order el ord]) (Suc ord))"

fun mandatory_loop ::
  "layer_rec list \<Rightarrow> string list \<Rightarrow> picked list \<Rightarrow> nat \<Rightarrow> (picked list \<times> nat) option" where
  "mandatory_loop layers [] picked ord = Some (picked, ord)"
| "mandatory_loop layers (m # ms) picked ord =
     (if find (\<lambda>p. layer p = m) picked = None then
        (case find (\<lambda>l. id_layer l = m) layers of
           None \<Rightarrow> mandatory_loop layers ms picked ord
         | Some l \<Rightarrow>
             (case sort_by (\<lambda>a b. js_sign (js_sub (weight b) (weight a))) (elements l) of
                [] \<Rightarrow> None
              | e # _ \<Rightarrow> mandatory_loop layers ms (picked @ [with_order e ord]) (Suc ord)))
      else mandatory_loop layers ms picked ord)"

fun requires_loop ::
  "layer_rec list \<Rightarrow> (string \<times> string option) list \<Rightarrow> picked list \<Rightarrow> nat
     \<Rightarrow> (picked list \<times> nat) option" where
  "requires_loop layers [] picked ord = Some (picked, ord)"
| "requires_loop layers ((layerName, valueName) # rest) picked ord =
     (case findIndex (\<lambda>p. layer p = layerName) picked of
        Some idx \<Rightarrow>
          (case valueName of
             None \<Rightarrow> None
           | Some v \<Rightarrow>
               requires_loop layers rest
                 (picked[idx := (picked ! idx)\<lparr>name := v, id_elem := traitKey layerName v\<rparr>]) ord)
      | None \<Rightarrow>
          (case find (\<lambda>l. id_layer l = layerName) layers of
             None \<Rightarrow> requires_loop layers rest picked ord
           | Some l \<Rightarrow>
               (case find (\<lambda>e. Some (name e) = valueName) (elements l) of
                  None \<Rightarrow> requires_loop layers rest picked ord
                | Some found \<Rightarrow>
                    requires_loop layers rest (picked @ [with_order found ord]) (Suc ord))))"

definition pickTraitsForLayers ::
  "config \<Rightarrow> layer_rec list \<Rightarrow> (nat \<Rightarrow> rat) \<Rightarrow> nat \<Rightarrow> picked list option" where
  "pickTraitsForLayers cfg layers rnd k =
     (case draw_layers layers rnd k [] 0 of
        None \<Rightarrow> None
      | Some (picked, ord) \<Rightarrow>
          (case mandatory_loop layers (mandatoryLayers cfg) picked ord of
             None \<Rightarrow> None
           | Some (picked', ord') \<Rightarrow>
               map_option fst
                 (requires_loop layers (enforceRequirements cfg picked') picked' ord')))"

section \<open>Image composition and metadata\<close>

text \<open>
  \<open>composeImage\<close> hands the compositor the assets of the selection sorted by \<open>_order\<close>;
  the image written is represented by that stack of asset paths, bottom first.
\<close>

definition composeImage :: "picked list \<Rightarrow> string list" where
  "composeImage selection =
     map path (sort_by (\<lambda>a b. int (order' a) - int (order' b)) selection)"

text \<open>Decimal rendering of a token number in a template literal.\<close>

definition digit_char :: "nat \<Rightarrow> char" where
  "digit_char d = char_of (48 + d)"

fun show_nat :: "nat \<Rightarrow> string" where
  "show_nat n = (if n < 10 then [digit_char n] else show_nat (n div 10) @ [digit_char (n mod 10)])"

declare show_nat.simps [simp del]

record metadata =
  meta_name :: string
  meta_description :: string
  image :: string
  edition :: nat
  attributes :: "(string \<times> string) list"
  extra :: "(string \<times> string) list"

text \<open>
  \<open>metadataForToken\<close>. An attribute \<open>{trait_type, value}\<close> is a pair. The spread of
  \<open>extraMetadata\<close> is kept as the field \<open>extra\<close>: the model takes its keys to differ from
  the five named ones (\<open>config.js\<close> sets none).
\<close>

definition metadataForToken :: "config \<Rightarrow> nat \<Rightarrow> picked list \<Rightarrow> string \<Rightarrow> metadata" where
  "metadataForToken cfg tokenId selection imageUri =
     \<lparr>meta_name = namePrefix cfg @ '' #'' @ show_nat tokenId,
      meta_description = description cfg,
      image = imageUri,
      edition = tokenId,
      attributes = map (\<lambda>s. (layer s, name s))
        (sort_by (\<lambda>a b. int (order' a) - int (order' b)) selection),
      extra = extraMetadata cfg\<rparr>"

definition image_uri :: "config \<Rightarrow> nat \<Rightarrow> string" where
  "image_uri cfg n =
     (if baseUri cfg \<noteq> [] \<and> last (baseUri cfg) = CHR ''/''
      then baseUri cfg @ show_nat n @ ''.png''
      else baseUri cfg @ ''/'' @ show_nat n @ ''.png'')"

section \<open>The generation loop of \<open>main\<close>\<close>

text \<open>
  The state \<open>main\<close> threads through its loops: the set of fingerprints (a \<open>Set\<close> whose
  members are strings or \<open>undefined\<close>, written \<open>None\<close>), the metadata and image-path
  arrays, the failure counter, the number of \<open>Math.random\<close> calls made so far, and the two
  output folders as lists of (file name, content).
\<close>

record run_state =
  dnaSet :: "string option list"
  allMetadata :: "metadata list"
  imagePaths :: "string list"
  failures :: nat
  calls :: nat
  imageFiles :: "(string \<times> string list) list"
  metadataFiles :: "(string \<times> metadata) list"

definition init_state :: run_state where
  "init_state = \<lparr>dnaSet = [], allMetadata = [], imagePaths = [], failures = 0, calls = 0,
     imageFiles = [], metadataFiles = []\<rparr>"

text \<open>
  The \<open>do ... while\<close> loop. \<open>continue\<close> inside a \<open>do ... while\<close> jumps to the loop
  condition, so after an incompatible selection the condition tests \<open>dna\<close> as the previous
  iteration left it (\<open>undefined\<close> before any assignment). The result holds the last
  selection, \<open>dna\<close>, \<open>attempts\<close> and the number of random calls made.
\<close>

function search_loop ::
  "config \<Rightarrow> (string \<Rightarrow> string \<Rightarrow> int) \<Rightarrow> layer_rec list \<Rightarrow> (nat \<Rightarrow> rat) \<Rightarrow> string option list
     \<Rightarrow> nat \<Rightarrow> nat \<Rightarrow> string option \<Rightarrow> (picked list \<times> string option \<times> nat \<times> nat) option" where
  "search_loop cfg lc layers rnd seen k attempts dna =
     (case pickTraitsForLayers cfg layers rnd k of
        None \<Rightarrow> None
      | Some selection \<Rightarrow>
          (let attempts' = attempts + 1;
               dna' = (if violatesIncompatibilities cfg selection then dna
                       else Some (dnaFromSelection lc selection));
               k' = k + length layers
           in if dna' \<in> set seen \<and> int attempts' < uniqueDnaTorrance cfg
              then search_loop cfg lc layers rnd seen k' attempts' dna'
              else Some (selection, dna', attempts', k')))"
  by pat_completeness auto
termination
  by (relation "measure (\<lambda>(cfg, lc, layers, rnd, seen, k, attempts, dna).
        nat (uniqueDnaTorrance cfg - int attempts))") auto

declare search_loop.simps [simp del]

text \<open>One pass of the \<open>for\<close> loop body, for the token number \<open>n\<close>.\<close>

definition token_slot ::
  "config \<Rightarrow> (string \<Rightarrow> string \<Rightarrow> int) \<Rightarrow> layer_rec list \<Rightarrow> (nat \<Rightarrow> rat) \<Rightarrow> run_state \<Rightarrow> nat
     \<Rightarrow> run_state option" where
  "token_slot cfg lc layers rnd st n =
     (case search_loop cfg lc layers rnd (dnaSet st) (calls st) 0 None of
        None \<Rightarrow> None
      | Some (selection, dna, attempts, k) \<Rightarrow>
          if uniqueDnaTorrance cfg \<le> int attempts
          then Some (st\<lparr>failures := failures st + 1, calls := k\<rparr>)
          else
            (let imgPath = show_nat n @ ''.png'';
                 meta = metadataForToken cfg n selection (image_uri cfg n)
             in Some (st\<lparr>dnaSet := set_add (dnaSet st) dna,
                         allMetadata := allMetadata st @ [meta],
                         imagePaths := imagePaths st @ [imgPath],
                         calls := k,
                         imageFiles := map_set (imageFiles st) imgPath (composeImage selection),
                         metadataFiles :=
                           map_set (metadataFiles st) (show_nat n @ ''.json'') meta\<rparr>)))"

fun token_loop ::
  "config \<Rightarrow> (string \<Rightarrow> string \<Rightarrow> int) \<Rightarrow> layer_rec list \<Rightarrow> (nat \<Rightarrow> rat) \<Rightarrow> run_state \<Rightarrow> nat list
     \<Rightarrow> run_state option" where
  "token_loop cfg lc layers rnd st [] = Some st"
| "token_loop cfg lc layers rnd st (n # ns) =
     (case token_slot cfg lc layers rnd st n of
        None \<Rightarrow> None
      | Some st' \<Rightarrow> token_loop cfg lc layers rnd st' ns)"

text \<open>
  \<open>shuffle\<close>: Fisher-Yates from the last index down to 1, with
  \<open>j = Math.floor(Math.random() * (i + 1))\<close>.
\<close>

fun shuffle_loop :: "(nat \<Rightarrow> rat) \<Rightarrow> nat \<Rightarrow> nat \<Rightarrow> 'a list \<Rightarrow> 'a list" where
  "shuffle_loop rnd k 0 array = array"
| "shuffle_loop rnd k (Suc i) array =
     (let j = nat \<lfloor>rnd k * of_nat (Suc i + 1)\<rfloor>
      in shuffle_loop rnd (Suc k) i (array[Suc i := array ! j, j := array ! Suc i]))"

definition shuffle :: "(nat \<Rightarrow> rat) \<Rightarrow> nat \<Rightarrow> 'a list \<Rightarrow> 'a list" where
  "shuffle rnd k array = shuffle_loop rnd k (length array - 1) array"

text \<open>
  The shuffle step of \<open>main\<close>: the metadata folder is emptied and file \<open>newId.json\<close>
  gets the record \<open>indices[newId - 1]\<close> of \<open>allMetadata\<close> with name, edition and image
  rewritten. Nothing is written to the image folder.
\<close>

definition renumbered :: "config \<Rightarrow> metadata \<Rightarrow> nat \<Rightarrow> metadata" where
  "renumbered cfg m newId =
     m\<lparr>meta_name := namePrefix cfg @ '' #'' @ show_nat newId,
       edition := newId,
       image := image_uri cfg newId\<rparr>"

definition shuffle_step :: "config \<Rightarrow> (nat \<Rightarrow> rat) \<Rightarrow> run_state \<Rightarrow> run_state" where
  "shuffle_step cfg rnd st =
     (if shuffleMetadata cfg then
        (let indices = shuffle rnd (calls st) (map (\<lambda>i. i + 1) [0 ..< length (allMetadata st)])
         in st\<lparr>calls := calls st + (length (allMetadata st) - 1),
               metadataFiles :=
                 foldl (\<lambda>files newId.
                          map_set files (show_nat newId @ ''.json'')
                            (renumbered cfg (allMetadata st ! (indices ! (newId - 1) - 1)) newId))
                   [] [1 ..< Suc (length (allMetadata st))]\<rparr>)
      else st)"

text \<open>
  \<open>main\<close> after the catalog is read: the edition loop, then the shuffle step. The files
  written afterwards from this state (\<open>_metadata.json\<close>, the fingerprint log, the preview
  sheet) are not part of the model.
\<close>

definition main ::
  "config \<Rightarrow> (string \<Rightarrow> string \<Rightarrow> int) \<Rightarrow> layer_rec list \<Rightarrow> (nat \<Rightarrow> rat) \<Rightarrow> run_state option" where
  "main cfg lc layers rnd =
     map_option (shuffle_step cfg rnd)
       (token_loop cfg lc layers rnd init_state [1 ..< Suc (editionSize cfg)])"

section \<open>Notions used in the statements\<close>

text \<open>
  What the theorems ask of a collation: distinct strings never compare equal, swapping
  the arguments swaps the sign, and the order is transitive.
\<close>

definition collation :: "(string \<Rightarrow> string \<Rightarrow> int) \<Rightarrow> bool" where
  "collation lc \<longleftrightarrow>
     (\<forall>a b. lc a b = 0 \<longleftrightarrow> a = b) \<and>
     (\<forall>a b. lc a b < 0 \<longleftrightarrow> 0 < lc b a) \<and>
     (\<forall>a b c. lc a b < 0 \<longrightarrow> lc b c < 0 \<longrightarrow> lc a c < 0)"

text \<open>The (layer, value) pairs a selection holds.\<close>

definition pairs :: "('a picked_scheme) list \<Rightarrow> (string \<times> string) list" where
  "pairs sel = map (\<lambda>s. (layer s, name s)) sel"

text \<open>
  The catalog as \<open>readLayers\<close> builds it: every layer has an element, and every element
  carries the identifier of its layer (both are \<open>toTitle(dir)\<close>).
\<close>

definition catalog_ok :: "layer_rec list \<Rightarrow> bool" where
  "catalog_ok layers \<longleftrightarrow>
     (\<forall>l \<in> set layers. elements l \<noteq> [] \<and> (\<forall>e \<in> set (elements l). layer e = id_layer l))"

text \<open>Every layer of the catalog has a trait in \<open>picked\<close>.\<close>

definition represented :: "layer_rec list \<Rightarrow> picked list \<Rightarrow> bool" where
  "represented layers picked \<longleftrightarrow> id_layer ` set layers \<subseteq> layer ` set picked"

text \<open>The in-place override \<open>{ ...picked[idx], name: valueName, id: traitKey(...) }\<close>.\<close>

definition forced :: "picked \<Rightarrow> string \<Rightarrow> string \<Rightarrow> picked" where
  "forced p l v = p\<lparr>name := v, id_elem := traitKey l v\<rparr>"

text \<open>
  The content of a metadata record that the shuffle step does not rewrite: attribute
  list, description and the spread of \<open>extraMetadata\<close>.
\<close>

definition content :: "metadata \<Rightarrow> (string \<times> string) list \<times> string \<times> (string \<times> string) list" where
  "content m = (attributes m, meta_description m, extra m)"

text \<open>Reading a decimal rendering back.\<close>

definition read_nat :: "string \<Rightarrow> nat" where
  "read_nat s = foldl (\<lambda>acc c. 10 * acc + (of_char c - 48)) 0 s"

text \<open>A non-empty string of decimal digits.\<close>

definition decimal_digits :: "string \<Rightarrow> bool" where
  "decimal_digits ds \<longleftrightarrow> ds \<noteq> [] \<and> (\<forall>c \<in> set ds. 48 \<le> (of_char c :: nat) \<and> (of_char c :: nat) \<le> 57)"





section \<open>Sample data for closed instances\<close>

text \<open>A sample collation for closed instances: comparison by code unit.\<close>

fun codeUnitCompare :: "string \<Rightarrow> string \<Rightarrow> int" where
  "codeUnitCompare [] [] = 0"
| "codeUnitCompare [] (y # ys) = - 1"
| "codeUnitCompare (x # xs) [] = 1"
| "codeUnitCompare (x # xs) (y # ys) =
     (if (of_char x :: nat) < of_char y then - 1
      else if (of_char y :: nat) < of_char x then 1
      else codeUnitCompare xs ys)"

text \<open>Sample catalog entries for closed instances: weight 1, asset \<open>layer/name.png\<close>.\<close>

definition elem :: "string \<Rightarrow> string \<Rightarrow> element" where
  "elem l n = \<lparr>id_elem = traitKey l n, layer = l, name = n, weight = Fin 1,
     path = l @ ''/'' @ n @ ''.png''\<rparr>"

definition mk_layer :: "string \<Rightarrow> string list \<Rightarrow> layer_rec" where
  "mk_layer l ns = \<lparr>id_layer = l, elements = map (elem l) ns\<rparr>"

text \<open>A sample trait for closed instances: weight 1, asset \<open>layer/name.png\<close>.\<close>

definition trait :: "string \<Rightarrow> string \<Rightarrow> nat \<Rightarrow> picked" where
  "trait l n k = \<lparr>id_elem = traitKey l n, layer = l, name = n, weight = Fin 1,
     path = l @ ''/'' @ n @ ''.png'', order' = k\<rparr>"

text \<open>
  The configuration of \<open>config.js\<close> with edition size, ceiling and the two rule tables
  given, each table as the list of its (key, array) entries.
\<close>

definition mk_config ::
  "nat \<Rightarrow> int \<Rightarrow> (string \<times> string list) list \<Rightarrow> (string \<times> string list) list \<Rightarrow> config" where
  "mk_config n tolerance inc req =
     \<lparr>editionSize = n, shuffleMetadata = True, rarityDelimiter = ''#'',
      uniqueDnaTorrance = tolerance, namePrefix = ''Piggos'', description = ''A collection'',
      baseUri = ''ipfs://CID'', extraMetadata = [], incompatible = map_of inc,
      requires = map_of req, mandatoryLayers = [''Background'', ''Base'']\<rparr>"

text \<open>A random source for closed instances: every call of \<open>Math.random\<close> returns \<open>u\<close>.\<close>

definition always :: "rat \<Rightarrow> nat \<Rightarrow> rat" where
  "always u k = u"

text \<open>A random source for closed instances: the listed values, then 0.\<close>

definition draws :: "rat list \<Rightarrow> nat \<Rightarrow> rat" where
  "draws us k = (if k < length us then us ! k else 0)"


section \<open>Properties of the array helpers\<close>

lemma set_insert_by: "set (insert_by cmp x xs) = insert x (set xs)"
  by (induction xs) auto

lemma set_sort_by: "set (sort_by cmp xs) = set xs"
  by (induction xs) (auto simp: set_insert_by)

lemma mset_insert_by: "mset (insert_by cmp x xs) = add_mset x (mset xs)"
  by (induction xs) auto

lemma mset_sort_by: "mset (sort_by cmp xs) = mset xs"
  by (induction xs) (auto simp: mset_insert_by)

lemma length_sort_by: "length (sort_by cmp xs) = length xs"
  by (metis mset_sort_by size_mset)

lemma map_insert_by:
  "map f (insert_by (\<lambda>a b. c (f a) (f b)) x xs) = insert_by c (f x) (map f xs)"
  by (induction xs) auto

lemma map_sort_by:
  "map f (sort_by (\<lambda>a b. c (f a) (f b)) xs) = sort_by c (map f xs)"
  by (induction xs) (auto simp: map_insert_by)

lemma sorted_insert_by:
  assumes "collation lc" "sorted_wrt (\<lambda>a b. lc a b < 0) xs" "x \<notin> set xs"
  shows "sorted_wrt (\<lambda>a b. lc a b < 0) (insert_by lc x xs)"
  using assms(2,3)
proof (induction xs)
  case Nil
  then show ?case by simp
next
  case (Cons y ys)
  from assms(1) have eq0: "\<And>a b. (lc a b = 0) = (a = b)"
    and sw: "\<And>a b. (lc a b < 0) = (0 < lc b a)"
    and tr: "\<And>a b c. lc a b < 0 \<Longrightarrow> lc b c < 0 \<Longrightarrow> lc a c < 0"
    unfolding collation_def by blast+
  show ?case
  proof (cases "lc x y \<le> 0")
    case True
    with Cons.prems eq0 [of x y] have xy: "lc x y < 0" by auto
    with Cons.prems tr show ?thesis by auto
  next
    case False
    then have "lc y x < 0" using sw [of y x] by simp
    with False Cons show ?thesis by (auto simp: set_insert_by)
  qed
qed

lemma sorted_sort_by:
  assumes "collation lc" "distinct xs"
  shows "sorted_wrt (\<lambda>a b. lc a b < 0) (sort_by lc xs)"
  using assms(2)
  by (induction xs) (auto simp: sorted_insert_by [OF assms(1)] set_sort_by)

lemma strict_sorted_unique:
  assumes "\<And>a b. P a b \<Longrightarrow> \<not> P b a"
  shows "sorted_wrt P xs \<Longrightarrow> sorted_wrt P ys \<Longrightarrow> set xs = set ys \<Longrightarrow> xs = ys"
proof (induction xs arbitrary: ys)
  case Nil
  then show ?case by simp
next
  case (Cons x xs)
  then obtain y ys' where ys: "ys = y # ys'" by (cases ys) auto
  have irr: "\<And>a. \<not> P a a" using assms by blast
  have xy: "x = y"
  proof (rule ccontr)
    assume ne: "x \<noteq> y"
    with Cons.prems(3) ys have "x \<in> set ys'" "y \<in> set xs" by auto
    with Cons.prems(1,2) ys have "P y x" "P x y" by auto
    with assms show False by blast
  qed
  have "x \<notin> set xs" "y \<notin> set ys'" using Cons.prems(1,2) ys irr by auto
  with Cons.prems(3) ys xy have "set xs = set ys'" by auto
  with Cons.IH [of ys'] Cons.prems(1,2) ys xy show ?case by simp
qed

lemma sort_by_key_unique:
  assumes c: "collation lc"
    and d1: "distinct (map fst ps)" and d2: "distinct (map fst qs)"
    and s: "set ps = set qs"
  shows "sort_by (\<lambda>a b. lc (fst a) (fst b)) ps = sort_by (\<lambda>a b. lc (fst a) (fst b)) qs"
proof -
  let ?cmp = "\<lambda>a b. lc (fst a) (fst b)"
  let ?P = "\<lambda>a b. lc (fst a) (fst b) < 0"
  have sorted: "sorted_wrt ?P (sort_by ?cmp zs)" if "distinct (map fst zs)" for zs :: "(string \<times> 'b) list"
  proof -
    have "sorted_wrt (\<lambda>a b. lc a b < 0) (sort_by lc (map fst zs))"
      using sorted_sort_by [OF c that] .
    then have "sorted_wrt (\<lambda>a b. lc a b < 0) (map fst (sort_by ?cmp zs))"
      by (simp add: map_sort_by)
    then show ?thesis by (simp add: sorted_wrt_map)
  qed
  have asym: "\<And>a b. ?P a b \<Longrightarrow> \<not> ?P b a"
    using c unfolding collation_def by (metis less_asym)
  show ?thesis
  proof (rule strict_sorted_unique [of ?P, OF asym sorted [OF d1] sorted [OF d2]])
    show "set (sort_by ?cmp ps) = set (sort_by ?cmp qs)"
      unfolding set_sort_by by (rule s)
  qed
qed

lemma dna_pairs:
  "dnaFromSelection lc sel =
     join ''|'' (map (\<lambda>p. fst p @ '':'' @ snd p) (sort_by (\<lambda>a b. lc (fst a) (fst b)) (pairs sel)))"
proof -
  have "map (\<lambda>s. (layer s, name s)) (sort_by (\<lambda>a b. lc (fst (layer a, name a)) (fst (layer b, name b))) sel)
      = sort_by (\<lambda>a b. lc (fst a) (fst b)) (map (\<lambda>s. (layer s, name s)) sel)"
    by (rule map_sort_by [of "\<lambda>s. (layer s, name s)" "\<lambda>a b. lc (fst a) (fst b)"])
  then have "sort_by (\<lambda>a b. lc (fst a) (fst b)) (pairs sel)
     = map (\<lambda>s. (layer s, name s)) (sort_by (\<lambda>a b. lc (layer a) (layer b)) sel)"
    by (simp add: pairs_def)
  then have "map (\<lambda>p. fst p @ '':'' @ snd p) (sort_by (\<lambda>a b. lc (fst a) (fst b)) (pairs sel))
     = map (\<lambda>s. layer s @ '':'' @ name s) (sort_by (\<lambda>a b. lc (layer a) (layer b)) sel)"
    by (simp add: comp_def) 
  then show ?thesis by (simp add: dnaFromSelection_def)
qed


lemma cuc_eq0: "codeUnitCompare a b = 0 \<longleftrightarrow> a = b"
  by (induction a b rule: codeUnitCompare.induct) auto

lemma cuc_swap: "codeUnitCompare a b < 0 \<longleftrightarrow> 0 < codeUnitCompare b a"
  by (induction a b rule: codeUnitCompare.induct) auto

lemma cuc_trans:
  "codeUnitCompare a b < 0 \<Longrightarrow> codeUnitCompare b c < 0 \<Longrightarrow> codeUnitCompare a c < 0"
proof (induction a b arbitrary: c rule: codeUnitCompare.induct)
  case 1
  then show ?case by simp
next
  case (2 y ys)
  then show ?case by (cases c) (auto split: if_splits)
next
  case (3 x xs)
  then show ?case by simp
next
  case (4 x xs y ys)
  show ?case
  proof (cases c)
    case Nil
    with 4 show ?thesis by simp
  next
    case (Cons z zs)
    consider "(of_char x :: nat) < of_char y" | "x = y" "codeUnitCompare xs ys < 0"
      using "4.prems"(1) by (auto split: if_splits)
    then show ?thesis
    proof cases
      case 1
      with "4.prems"(2) Cons show ?thesis by (auto split: if_splits)
    next
      case 2
      consider "(of_char y :: nat) < of_char z" | "y = z" "codeUnitCompare ys zs < 0"
        using "4.prems"(2) Cons by (auto split: if_splits)
      then show ?thesis
      proof cases
        case 1
        with 2 Cons show ?thesis by simp
      next
        case 2
        note b = 2
        from "4.IH" [of zs] \<open>x = y\<close> \<open>codeUnitCompare xs ys < 0\<close> b
        have "codeUnitCompare xs zs < 0" by simp
        with \<open>x = y\<close> b Cons show ?thesis by simp
      qed
    qed
  qed
qed

lemma collation_codeUnitCompare: "collation codeUnitCompare"
  unfolding collation_def using cuc_eq0 cuc_swap cuc_trans by blast


section \<open>Properties of the trait selector\<close>

lemma pick_scan_mem: "pick_scan r els = Some e \<Longrightarrow> e \<in> set els"
  by (induction els arbitrary: r) (auto simp: Let_def split: if_splits)

lemma weightedPick_mem: "weightedPick els u = Some e \<Longrightarrow> e \<in> set els"
  by (auto simp: weightedPick_def Let_def split: option.splits if_splits dest: pick_scan_mem)

lemma weightedPick_Some: "els \<noteq> [] \<Longrightarrow> \<exists>e. weightedPick els u = Some e"
  by (auto simp: weightedPick_def Let_def split: option.splits)

lemma findIndex_Some:
  "findIndex P xs = Some i \<Longrightarrow> i < length xs \<and> P (xs ! i) \<and> (\<forall>j<i. \<not> P (xs ! j))"
proof (induction xs arbitrary: i)
  case Nil
  then show ?case by simp
next
  case (Cons x xs)
  show ?case
  proof (cases "P x")
    case True
    with Cons.prems show ?thesis by simp
  next
    case False
    with Cons.prems obtain i' where i': "findIndex P xs = Some i'" "i = Suc i'" by auto
    from Cons.IH [OF i'(1)] False i'(2) show ?thesis
      by (auto simp: less_Suc_eq_0_disj)
  qed
qed

lemma findIndex_None: "findIndex P xs = None \<longleftrightarrow> (\<forall>x \<in> set xs. \<not> P x)"
  by (induction xs) auto

lemma findIndex_map: "findIndex (\<lambda>x. P (f x)) xs = findIndex P (map f xs)"
  by (induction xs) auto

lemma findIndex_layer_cong:
  "map layer xs = map layer ys \<Longrightarrow>
     findIndex (\<lambda>p. layer p = l) xs = findIndex (\<lambda>p. layer p = l) ys"
  using findIndex_map [of "\<lambda>x. x = l" layer xs] findIndex_map [of "\<lambda>x. x = l" layer ys]
  by simp

text \<open>The first loop: one trait per layer, in layer order, numbered from the counter.\<close>

lemma draw_layers_result:
  assumes "catalog_ok ls"
  shows "\<exists>new. draw_layers ls rnd k picked ord = Some (picked @ new, ord + length ls)
           \<and> map layer new = map id_layer ls
           \<and> map order' new = [ord ..< ord + length ls]
           \<and> list_all2 (\<lambda>p l. \<exists>e \<in> set (elements l). p = with_order e (order' p)) new ls"
  using assms
proof (induction ls arbitrary: k picked ord)
  case Nil
  then show ?case by simp
next
  case (Cons l ls)
  from Cons.prems have ok: "catalog_ok ls" and ne: "elements l \<noteq> []"
    and lay: "\<forall>e \<in> set (elements l). layer e = id_layer l"
    by (auto simp: catalog_ok_def)
  from weightedPick_Some [OF ne] obtain el where el: "weightedPick (elements l) (rnd k) = Some el"
    by blast
  then have mem: "el \<in> set (elements l)" by (rule weightedPick_mem)
  from Cons.IH [OF ok, of "Suc k" "picked @ [with_order el ord]" "Suc ord"]
  obtain new where new:
    "draw_layers ls rnd (Suc k) (picked @ [with_order el ord]) (Suc ord)
       = Some ((picked @ [with_order el ord]) @ new, Suc ord + length ls)"
    "map layer new = map id_layer ls"
    "map order' new = [Suc ord ..< Suc ord + length ls]"
    "list_all2 (\<lambda>p l. \<exists>e \<in> set (elements l). p = with_order e (order' p)) new ls"
    by blast
  have "draw_layers (l # ls) rnd k picked ord
          = Some (picked @ (with_order el ord # new), ord + length (l # ls))"
    using el new(1) by simp
  moreover have "map layer (with_order el ord # new) = map id_layer (l # ls)"
    using new(2) lay mem by (simp add: with_order_def)
  moreover have "map order' (with_order el ord # new) = [ord ..< ord + length (l # ls)]"
    using new(3) by (simp add: with_order_def upt_rec)
  moreover have "list_all2 (\<lambda>p l. \<exists>e \<in> set (elements l). p = with_order e (order' p))
                   (with_order el ord # new) (l # ls)"
    using new(4) mem by (auto simp: with_order_def)
  ultimately show ?case by blast
qed

lemma mandatory_loop_noop:
  assumes "represented layers picked"
  shows "mandatory_loop layers ms picked ord = Some (picked, ord)"
proof (induction ms)
  case Nil
  then show ?case by simp
next
  case (Cons m ms)
  show ?case
  proof (cases "find (\<lambda>p. layer p = m) picked")
    case None
    then have "m \<notin> layer ` set picked" by (auto simp: find_None_iff)
    with assms have "m \<notin> id_layer ` set layers" by (auto simp: represented_def)
    then have "find (\<lambda>l. id_layer l = m) layers = None" by (auto simp: find_None_iff)
    with None Cons.IH show ?thesis by simp
  next
    case (Some p)
    with Cons.IH show ?thesis by simp
  qed
qed

lemma map_layer_update:
  "idx < length picked \<Longrightarrow>
   map layer (picked[idx := (picked ! idx)\<lparr>name := v, id_elem := w\<rparr>]) = map layer picked"
  by (simp add: map_update list_update_same_conv)

lemma represented_cong:
  "map layer xs = map layer ys \<Longrightarrow> represented layers xs = represented layers ys"
proof -
  assume "map layer xs = map layer ys"
  then have "set (map layer xs) = set (map layer ys)" by simp
  then show ?thesis unfolding represented_def by simp
qed

lemma requires_loop_result:
  assumes "represented layers picked" and "distinct (map fst must)"
    and "requires_loop layers must picked ord = Some (sel, ord')"
  shows "ord' = ord \<and> length sel = length picked \<and>
         (\<forall>i<length picked. sel ! i =
            (if findIndex (\<lambda>p. layer p = layer (picked ! i)) picked = Some i
             then (case map_of must (layer (picked ! i)) of
                     Some (Some v) \<Rightarrow> forced (picked ! i) (layer (picked ! i)) v
                   | _ \<Rightarrow> picked ! i)
             else picked ! i))"
  using assms
proof (induction must arbitrary: picked)
  case Nil
  then show ?case by simp
next
  case (Cons lv rest)
  obtain l v where lv: "lv = (l, v)" by (cases lv)
  from Cons.prems(2) lv have dist: "distinct (map fst rest)" and fresh: "map_of rest l = None"
    by (auto simp: map_of_eq_None_iff)
  show ?case
  proof (cases "findIndex (\<lambda>p. layer p = l) picked")
    case None
    then have notin: "l \<notin> layer ` set picked" by (auto simp: findIndex_None)
    with Cons.prems(1) have "find (\<lambda>x. id_layer x = l) layers = None"
      by (auto simp: represented_def find_None_iff)
    with None Cons.prems(3) lv have run: "requires_loop layers rest picked ord = Some (sel, ord')"
      by simp
    from notin have "\<And>i. i < length picked \<Longrightarrow> layer (picked ! i) \<noteq> l"
      by (metis imageI nth_mem)
    with Cons.IH [OF Cons.prems(1) dist run] lv show ?thesis by simp
  next
    case (Some idx)
    from findIndex_Some [OF Some] have idx: "idx < length picked" "layer (picked ! idx) = l"
      by auto
    from Some Cons.prems(3) lv obtain w where w: "v = Some w"
      by (cases v) auto
    let ?picked' = "picked[idx := (picked ! idx)\<lparr>name := w, id_elem := traitKey l w\<rparr>]"
    from Some Cons.prems(3) lv w have run: "requires_loop layers rest ?picked' ord = Some (sel, ord')"
      by simp
    have lay: "map layer ?picked' = map layer picked"
      using idx(1) by (rule map_layer_update)
    then have layi: "\<And>i. i < length picked \<Longrightarrow> layer (?picked' ! i) = layer (picked ! i)"
      by (metis length_list_update length_map nth_map)
    have rep: "represented layers ?picked'"
      using Cons.prems(1) represented_cong [OF lay] by simp
    have fi: "\<And>l'. findIndex (\<lambda>p. layer p = l') ?picked' = findIndex (\<lambda>p. layer p = l') picked"
      using findIndex_layer_cong [OF lay] .
    note IH = Cons.IH [OF rep dist run]
    have "sel ! i =
            (if findIndex (\<lambda>p. layer p = layer (picked ! i)) picked = Some i
             then (case map_of (lv # rest) (layer (picked ! i)) of
                     Some (Some v) \<Rightarrow> forced (picked ! i) (layer (picked ! i)) v
                   | _ \<Rightarrow> picked ! i)
             else picked ! i)" if i: "i < length picked" for i
    proof -
      from IH i have "sel ! i =
            (if findIndex (\<lambda>p. layer p = layer (?picked' ! i)) ?picked' = Some i
             then (case map_of rest (layer (?picked' ! i)) of
                     Some (Some v) \<Rightarrow> forced (?picked' ! i) (layer (?picked' ! i)) v
                   | _ \<Rightarrow> ?picked' ! i)
             else ?picked' ! i)"
        by simp
      then have IHi: "sel ! i =
            (if findIndex (\<lambda>p. layer p = layer (picked ! i)) picked = Some i
             then (case map_of rest (layer (picked ! i)) of
                     Some (Some v) \<Rightarrow> forced (?picked' ! i) (layer (picked ! i)) v
                   | _ \<Rightarrow> ?picked' ! i)
             else ?picked' ! i)"
        unfolding fi layi [OF i] .
      show ?thesis
      proof (cases "i = idx")
        case True
        have "?picked' ! idx = forced (picked ! idx) l w"
          using idx(1) by (simp add: forced_def)
        with IHi True idx fresh Some lv w show ?thesis
          by simp
      next
        case False
        then have same: "?picked' ! i = picked ! i" by simp
        show ?thesis
        proof (cases "layer (picked ! i) = l")
          case True
          with Some False have "findIndex (\<lambda>p. layer p = layer (picked ! i)) picked \<noteq> Some i"
            by simp
          with IHi show ?thesis unfolding same by simp
        next
          case False
          with IHi lv show ?thesis unfolding same by simp
        qed
      qed
    qed
    with IH show ?thesis by simp
  qed
qed

lemma set_foldl_set_add: "set (foldl set_add acc xs) = set acc \<union> set xs"
  by (induction xs arbitrary: acc) auto

lemma set_new_Set: "set (new_Set xs) = set xs"
  by (simp add: new_Set_def set_foldl_set_add)

lemma distinct_foldl_set_add: "distinct acc \<Longrightarrow> distinct (foldl set_add acc xs)"
  by (induction xs arbitrary: acc) auto

lemma distinct_new_Set: "distinct (new_Set xs)"
  by (simp add: new_Set_def distinct_foldl_set_add)


lemma keys_map_set: "fst ` set (map_set m k v) = insert k (fst ` set m)"
  by (induction m k v rule: map_set.induct) auto

lemma distinct_map_set: "distinct (map fst m) \<Longrightarrow> distinct (map fst (map_set m k v))"
proof (induction m)
  case Nil
  then show ?case by simp
next
  case (Cons kv m)
  obtain k' v' where kv: "kv = (k', v')" by (cases kv)
  with Cons keys_map_set [of m k v] show ?case by (auto simp: image_iff)
qed

lemma distinct_add_targets:
  "distinct (map fst m) \<Longrightarrow> distinct (map fst (add_targets m reqs))"
  unfolding add_targets_def
  by (induction reqs arbitrary: m) (auto simp: distinct_map_set split: prod.splits)

lemma distinct_fold_keys:
  "distinct (map fst m) \<Longrightarrow>
   distinct (map fst (foldl (\<lambda>mustAdd k. case requires cfg k of None \<Rightarrow> mustAdd
                                          | Some reqs \<Rightarrow> add_targets mustAdd reqs) m ks))"
  by (induction ks arbitrary: m) (auto simp: distinct_add_targets split: option.splits)

lemma distinct_enforceRequirements: "distinct (map fst (enforceRequirements cfg selection))"
  by (simp add: enforceRequirements_def distinct_fold_keys)

text \<open>The three loops of \<open>pickTraitsForLayers\<close> on a catalog as \<open>readLayers\<close> builds it.\<close>

lemma pickTraits_stages:
  assumes ok: "catalog_ok layers"
    and run: "pickTraitsForLayers cfg layers rnd k = Some selection"
  shows "\<exists>drawn. draw_layers layers rnd k [] 0 = Some (drawn, length layers)
           \<and> map layer drawn = map id_layer layers
           \<and> map order' drawn = [0 ..< length layers]
           \<and> represented layers drawn
           \<and> mandatory_loop layers (mandatoryLayers cfg) drawn (length layers)
               = Some (drawn, length layers)
           \<and> requires_loop layers (enforceRequirements cfg drawn) drawn (length layers)
               = Some (selection, length layers)"
proof -
  from draw_layers_result [OF ok, of rnd k "[]" 0]
  obtain drawn where d: "draw_layers layers rnd k [] 0 = Some (drawn, length layers)"
    "map layer drawn = map id_layer layers" "map order' drawn = [0 ..< length layers]"
    by auto
  from d(2) have "set (map layer drawn) = set (map id_layer layers)" by simp
  then have rep: "represented layers drawn" by (simp add: represented_def)
  have m: "mandatory_loop layers (mandatoryLayers cfg) drawn (length layers)
             = Some (drawn, length layers)"
    using rep by (rule mandatory_loop_noop)
  from run d(1) m obtain ord' where
    r: "requires_loop layers (enforceRequirements cfg drawn) drawn (length layers)
          = Some (selection, ord')"
    by (auto simp: pickTraitsForLayers_def)
  from requires_loop_result [OF rep distinct_enforceRequirements r]
  have "ord' = length layers" by simp
  with d rep m r show ?thesis by blast
qed

lemma forced_fields [simp]:
  "layer (forced p l v) = layer p" "path (forced p l v) = path p"
  "order' (forced p l v) = order' p" "weight (forced p l v) = weight p"
  "name (forced p l v) = v" "id_elem (forced p l v) = traitKey l v"
  by (simp_all add: forced_def)

lemma requires_loop_frame:
  assumes "represented layers picked" and "distinct (map fst must)"
    and "requires_loop layers must picked ord = Some (sel, ord')"
  shows "map layer sel = map layer picked \<and> map path sel = map path picked
       \<and> map order' sel = map order' picked \<and> map weight sel = map weight picked"
proof -
  note r = requires_loop_result [OF assms]
  then have len: "length sel = length picked" by simp
  have "layer (sel ! i) = layer (picked ! i) \<and> path (sel ! i) = path (picked ! i)
      \<and> order' (sel ! i) = order' (picked ! i) \<and> weight (sel ! i) = weight (picked ! i)"
    if "i < length picked" for i
    using r that by (auto split: option.splits)
  with len show ?thesis by (simp add: list_eq_iff_nth_eq)
qed

lemma insert_by_sorted:
  "(\<forall>y \<in> set ys. cmp x y \<le> 0) \<Longrightarrow> insert_by cmp x ys = x # ys"
  by (cases ys) auto

lemma sort_by_sorted: "sorted_wrt (\<lambda>a b. cmp a b \<le> 0) xs \<Longrightarrow> sort_by cmp xs = xs"
  by (induction xs) (auto simp: insert_by_sorted)

lemma sort_by_order_id:
  assumes "map order' sel = [m ..< n]"
  shows "sort_by (\<lambda>a b. int (order' a) - int (order' b)) sel = sel"
proof -
  have "sorted_wrt (\<lambda>a b. a \<le> b) (map order' sel)"
    unfolding assms using sorted_upt [of m n] by simp
  then have "sorted_wrt (\<lambda>a b. int (order' a) - int (order' b) \<le> 0) sel"
    by (simp add: sorted_wrt_map)
  then show ?thesis by (rule sort_by_sorted)
qed

text \<open>Totality on well-formed input.\<close>

lemma split_on_nonempty: "split_on c s \<noteq> []"
  by (induction s) (auto split: list.splits)

lemma split_on_colon:
  "c \<in> set s \<Longrightarrow> \<exists>l v rest. split_on c s = l # v # rest"
proof (induction s)
  case Nil
  then show ?case by simp
next
  case (Cons x xs)
  show ?case
  proof (cases "x = c")
    case True
    with split_on_nonempty [of c xs] show ?thesis by (cases "split_on c xs") auto
  next
    case False
    with Cons obtain l v rest where "split_on c xs = l # v # rest" by auto
    with False show ?thesis by simp
  qed
qed

lemma split_target_Some: "CHR '':'' \<in> set t \<Longrightarrow> snd (split_target t) \<noteq> None"
  using split_on_colon [of "CHR '':''" t] by (auto simp: split_target_def)

lemma add_targets_entries:
  "(l, v) \<in> set (add_targets m reqs) \<Longrightarrow>
     (l, v) \<in> set m \<or> (\<exists>t \<in> set reqs. split_target t = (l, v))"
proof (induction reqs arbitrary: m)
  case Nil
  then show ?case by (simp add: add_targets_def)
next
  case (Cons t ts)
  obtain l' v' where t: "split_target t = (l', v')" by (cases "split_target t")
  from Cons.prems t have "(l, v) \<in> set (add_targets (map_set m l' v') ts)"
    by (simp add: add_targets_def)
  from Cons.IH [OF this] show ?case
  proof
    assume "(l, v) \<in> set (map_set m l' v')"
    then have "(l, v) \<in> set m \<or> (l, v) = (l', v')"
      by (induction m l' v' rule: map_set.induct) (auto split: if_splits)
    with t show ?thesis by auto
  next
    assume "\<exists>t \<in> set ts. split_target t = (l, v)"
    then show ?thesis by auto
  qed
qed

lemma fold_rules_entries:
  "(l, v) \<in> set (foldl (\<lambda>mustAdd k. case requires cfg k of None \<Rightarrow> mustAdd
                                      | Some reqs \<Rightarrow> add_targets mustAdd reqs) m ks) \<Longrightarrow>
     (l, v) \<in> set m \<or>
     (\<exists>k \<in> set ks. \<exists>reqs. requires cfg k = Some reqs \<and> (\<exists>t \<in> set reqs. split_target t = (l, v)))"
proof (induction ks arbitrary: m)
  case Nil
  then show ?case by simp
next
  case (Cons k ks)
  show ?case
  proof (cases "requires cfg k")
    case None
    with Cons.prems Cons.IH [of m] show ?thesis by auto
  next
    case (Some reqs)
    with Cons.prems Cons.IH [of "add_targets m reqs"]
    have "(l, v) \<in> set (add_targets m reqs) \<or>
     (\<exists>k \<in> set ks. \<exists>reqs. requires cfg k = Some reqs \<and> (\<exists>t \<in> set reqs. split_target t = (l, v)))"
      by simp
    with Some add_targets_entries [of l v m reqs] show ?thesis by auto
  qed
qed

lemma enforceRequirements_entries:
  assumes "(l, v) \<in> set (enforceRequirements cfg selection)"
  shows "\<exists>p \<in> set selection. \<exists>reqs. requires cfg (traitKey (layer p) (name p)) = Some reqs
           \<and> (\<exists>t \<in> set reqs. split_target t = (l, v))"
proof -
  let ?chosen = "new_Set (map (\<lambda>s. traitKey (layer s) (name s)) selection)"
  from assms fold_rules_entries [of l v cfg "[]" ?chosen]
  obtain k reqs where k: "k \<in> set ?chosen" "requires cfg k = Some reqs"
    "\<exists>t \<in> set reqs. split_target t = (l, v)"
    by (auto simp: enforceRequirements_def)
  from k(1) obtain p where "p \<in> set selection" "k = traitKey (layer p) (name p)"
    by (auto simp: set_new_Set)
  with k(2,3) show ?thesis by blast
qed

lemma requires_loop_Some:
  assumes "represented layers picked" and "\<forall>(l, v) \<in> set must. v \<noteq> None"
  shows "\<exists>sel. requires_loop layers must picked ord = Some (sel, ord)"
  using assms
proof (induction must arbitrary: picked)
  case Nil
  then show ?case by simp
next
  case (Cons lv rest)
  obtain l v where lv: "lv = (l, v)" by (cases lv)
  with Cons.prems(2) obtain w where w: "v = Some w" by auto
  from Cons.prems(2) have rest: "\<forall>(l, v) \<in> set rest. v \<noteq> None" by simp
  show ?case
  proof (cases "findIndex (\<lambda>p. layer p = l) picked")
    case None
    then have "l \<notin> layer ` set picked" by (auto simp: findIndex_None)
    with Cons.prems(1) have "find (\<lambda>x. id_layer x = l) layers = None"
      by (auto simp: represented_def find_None_iff)
    with None lv Cons.IH [OF Cons.prems(1) rest] show ?thesis by simp
  next
    case (Some idx)
    let ?picked' = "picked[idx := (picked ! idx)\<lparr>name := w, id_elem := traitKey l w\<rparr>]"
    from findIndex_Some [OF Some] have "idx < length picked" by simp
    then have "map layer ?picked' = map layer picked" by (rule map_layer_update)
    from represented_cong [OF this] Cons.prems(1) have "represented layers ?picked'" by simp
    from Cons.IH [OF this rest] Some lv w show ?thesis by simp
  qed
qed

lemma pickTraitsForLayers_Some:
  assumes ok: "catalog_ok layers"
    and colon: "\<forall>k reqs. requires cfg k = Some reqs \<longrightarrow> (\<forall>t \<in> set reqs. CHR '':'' \<in> set t)"
  shows "\<exists>selection. pickTraitsForLayers cfg layers rnd k = Some selection"
proof -
  from draw_layers_result [OF ok, of rnd k "[]" 0]
  obtain drawn where d: "draw_layers layers rnd k [] 0 = Some (drawn, length layers)"
    "map layer drawn = map id_layer layers"
    by auto
  from d(2) have "set (map layer drawn) = set (map id_layer layers)" by simp
  then have rep: "represented layers drawn" by (simp add: represented_def)
  have m: "mandatory_loop layers (mandatoryLayers cfg) drawn (length layers)
             = Some (drawn, length layers)"
    using rep by (rule mandatory_loop_noop)
  have "v \<noteq> None" if "(l, v) \<in> set (enforceRequirements cfg drawn)" for l v
  proof -
    from enforceRequirements_entries [OF that] obtain reqs key t where
      "requires cfg key = Some reqs" "t \<in> set reqs" "split_target t = (l, v)" by blast
    with colon split_target_Some [of t] show ?thesis by auto
  qed
  then have "\<forall>(l, v) \<in> set (enforceRequirements cfg drawn). v \<noteq> None" by blast
  from requires_loop_Some [OF rep this, of "length layers"] d(1) m show ?thesis
    by (auto simp: pickTraitsForLayers_def)
qed




section \<open>Properties of the generation loop\<close>

lemma violatesIncompatibilities_iff:
  "violatesIncompatibilities cfg selection \<longleftrightarrow>
     (\<exists>a \<in> set selection. \<exists>bad. incompatible cfg (traitKey (layer a) (name a)) = Some bad
        \<and> (\<exists>b \<in> set selection. traitKey (layer b) (name b) \<in> set bad))"
proof -
  have c: "(case incompatible cfg k of None \<Rightarrow> False | Some bad \<Rightarrow> Q bad)
      \<longleftrightarrow> (\<exists>bad. incompatible cfg k = Some bad \<and> Q bad)" for k Q
    by (simp split: option.splits)
  show ?thesis
    unfolding violatesIncompatibilities_def Let_def list_ex_iff set_new_Set c
    by (simp add: Bex_def image_iff) blast
qed

text \<open>One iteration: a compatible selection with an unseen fingerprint ends the loop.\<close>

lemma search_loop_exit_now:
  assumes "pickTraitsForLayers cfg layers rnd k = Some selection"
    and "\<not> violatesIncompatibilities cfg selection"
    and "Some (dnaFromSelection lc selection) \<notin> set seen"
  shows "search_loop cfg lc layers rnd seen k attempts dna
         = Some (selection, Some (dnaFromSelection lc selection), attempts + 1, k + length layers)"
  using assms by (simp add: search_loop.simps)

lemma search_loop_result:
  assumes "search_loop cfg lc layers rnd seen k attempts dna = Some (selection, dna', attempts', k')"
  shows "attempts < attempts'
       \<and> k' = k + (attempts' - attempts) * length layers
       \<and> pickTraitsForLayers cfg layers rnd (k' - length layers) = Some selection
       \<and> (dna' \<notin> set seen \<or> uniqueDnaTorrance cfg \<le> int attempts')
       \<and> (\<not> violatesIncompatibilities cfg selection \<longrightarrow> dna' = Some (dnaFromSelection lc selection))
       \<and> (attempts' = attempts + 1 \<or> int attempts' \<le> uniqueDnaTorrance cfg)"
  using assms
proof (induction cfg lc layers rnd seen k attempts dna rule: search_loop.induct)
  case (1 cfg lc layers rnd seen k attempts dna)
  from "1.prems" obtain sel where sel: "pickTraitsForLayers cfg layers rnd k = Some sel"
    by (cases "pickTraitsForLayers cfg layers rnd k") (auto simp: search_loop.simps)
  let ?d = "(if violatesIncompatibilities cfg sel then dna
            else Some (dnaFromSelection lc sel))"
  show ?case
  proof (cases "?d \<in> set seen \<and> int (attempts + 1) < uniqueDnaTorrance cfg")
    case True
    with "1.prems" sel have rec: "search_loop cfg lc layers rnd seen (k + length layers) (attempts + 1) ?d
        = Some (selection, dna', attempts', k')"
      by (subst (asm) search_loop.simps) (simp add: Let_def)
    from "1.IH" [OF sel refl refl refl True rec]
    have IH: "attempts + 1 < attempts'"
      "k' = k + length layers + (attempts' - (attempts + 1)) * length layers"
      "pickTraitsForLayers cfg layers rnd (k' - length layers) = Some selection"
      "dna' \<notin> set seen \<or> uniqueDnaTorrance cfg \<le> int attempts'"
      "\<not> violatesIncompatibilities cfg selection \<longrightarrow> dna' = Some (dnaFromSelection lc selection)"
      "attempts' = attempts + 1 + 1 \<or> int attempts' \<le> uniqueDnaTorrance cfg"
      by blast+
    from IH(1) have "(attempts' - attempts) = Suc (attempts' - (attempts + 1))" by simp
    with IH(2) have k': "k' = k + (attempts' - attempts) * length layers" by simp
    from IH(1) have lt: "attempts < attempts'" by simp
    from IH(6) True IH(1) have le: "attempts' = attempts + 1 \<or> int attempts' \<le> uniqueDnaTorrance cfg"
      by auto
    from lt k' IH(3) IH(4) IH(5) le show ?thesis by blast
  next
    case False
    have now: "search_loop cfg lc layers rnd seen k attempts dna
        = Some (sel, ?d, attempts + 1, k + length layers)"
      by (subst search_loop.simps) (simp only: sel option.case Let_def False if_False)
    have "Some (sel, ?d, attempts + 1, k + length layers)
        = Some (selection, dna', attempts', k')"
      by (rule trans [OF now [symmetric] "1.prems"])
    then have res: "selection = sel" "dna' = ?d" "attempts' = attempts + 1"
      "k' = k + length layers"
      by blast+
    with sel False show ?thesis by auto
  qed
qed

text \<open>What does hold of the fingerprint set: one member per accepted token, no member twice.\<close>

lemma token_slot_dnaSet:
  assumes "token_slot cfg lc layers rnd st n = Some st'"
    and "distinct (dnaSet st)" and "length (dnaSet st) = length (allMetadata st)"
  shows "distinct (dnaSet st') \<and> length (dnaSet st') = length (allMetadata st')"
proof -
  from assms(1) obtain selection dna attempts k' where
    run: "search_loop cfg lc layers rnd (dnaSet st) (calls st) 0 None
             = Some (selection, dna, attempts, k')"
    by (cases "search_loop cfg lc layers rnd (dnaSet st) (calls st) 0 None")
       (auto simp: token_slot_def)
  from search_loop_result [OF run]
  have new: "dna \<notin> set (dnaSet st) \<or> uniqueDnaTorrance cfg \<le> int attempts" by simp
  show ?thesis
  proof (cases "uniqueDnaTorrance cfg \<le> int attempts")
    case True
    with run assms show ?thesis by (auto simp: token_slot_def)
  next
    case False
    with new have "dna \<notin> set (dnaSet st)" by simp
    with False run assms show ?thesis by (auto simp: token_slot_def Let_def)
  qed
qed

lemma token_loop_dnaSet:
  assumes "token_loop cfg lc layers rnd st ns = Some st'"
    and "distinct (dnaSet st)" and "length (dnaSet st) = length (allMetadata st)"
  shows "distinct (dnaSet st') \<and> length (dnaSet st') = length (allMetadata st')"
  using assms
proof (induction ns arbitrary: st)
  case Nil
  then show ?case by simp
next
  case (Cons n ns)
  from Cons.prems(1) obtain st1 where s: "token_slot cfg lc layers rnd st n = Some st1"
    "token_loop cfg lc layers rnd st1 ns = Some st'"
    by (auto split: option.splits)
  from token_slot_dnaSet [OF s(1) Cons.prems(2,3)] Cons.IH [OF s(2)] show ?case by simp
qed

text \<open>
  The run returns: on a catalog as \<open>readLayers\<close> builds it and rule targets that hold a
  colon, every loop of \<open>main\<close> ends with a state.
\<close>

lemma search_loop_Some:
  assumes "\<forall>k. \<exists>selection. pickTraitsForLayers cfg layers rnd k = Some selection"
  shows "\<exists>r. search_loop cfg lc layers rnd seen k attempts dna = Some r"
  using assms
proof (induction cfg lc layers rnd seen k attempts dna rule: search_loop.induct)
  case (1 cfg lc layers rnd seen k attempts dna)
  from "1.prems" obtain sel where sel: "pickTraitsForLayers cfg layers rnd k = Some sel"
    by blast
  let ?d = "(if violatesIncompatibilities cfg sel then dna
            else Some (dnaFromSelection lc sel))"
  show ?case
  proof (cases "?d \<in> set seen \<and> int (attempts + 1) < uniqueDnaTorrance cfg")
    case True
    from "1.IH" [OF sel refl refl refl True "1.prems"]
    obtain r where "search_loop cfg lc layers rnd seen (k + length layers) (attempts + 1) ?d = Some r"
      by blast
    moreover have "search_loop cfg lc layers rnd seen k attempts dna
        = search_loop cfg lc layers rnd seen (k + length layers) (attempts + 1) ?d"
      by (subst search_loop.simps) (simp only: sel option.case Let_def True if_True simp_thms)
    ultimately show ?thesis by (simp only: exI)
  next
    case False
    have "search_loop cfg lc layers rnd seen k attempts dna
        = Some (sel, ?d, attempts + 1, k + length layers)"
      by (subst search_loop.simps) (simp only: sel option.case Let_def False if_False)
    then show ?thesis by (rule exI)
  qed
qed

lemma token_slot_Some:
  assumes "\<forall>k. \<exists>selection. pickTraitsForLayers cfg layers rnd k = Some selection"
  shows "\<exists>st'. token_slot cfg lc layers rnd st n = Some st'"
proof -
  from search_loop_Some [OF assms, of lc "dnaSet st" "calls st" 0 None]
  obtain r where "search_loop cfg lc layers rnd (dnaSet st) (calls st) 0 None = Some r" by blast
  then show ?thesis by (cases r) (simp add: token_slot_def Let_def)
qed

lemma token_loop_Some:
  assumes "\<forall>k. \<exists>selection. pickTraitsForLayers cfg layers rnd k = Some selection"
  shows "\<exists>st'. token_loop cfg lc layers rnd st ns = Some st'"
proof (induction ns arbitrary: st)
  case Nil
  then show ?case by simp
next
  case (Cons n ns)
  from token_slot_Some [OF assms, of lc st n]
  obtain st1 where "token_slot cfg lc layers rnd st n = Some st1" by blast
  with Cons [of st1] show ?case by simp
qed

lemma main_Some:
  assumes "catalog_ok layers"
    and "\<forall>k reqs. requires cfg k = Some reqs \<longrightarrow> (\<forall>t \<in> set reqs. CHR '':'' \<in> set t)"
  shows "\<exists>st. main cfg lc layers rnd = Some st"
proof -
  have "\<forall>k. \<exists>selection. pickTraitsForLayers cfg layers rnd k = Some selection"
    using pickTraitsForLayers_Some [OF assms] by blast
  from token_loop_Some [OF this, of lc init_state "[1 ..< Suc (editionSize cfg)]"]
  show ?thesis by (auto simp: main_def)
qed

section \<open>Properties of the shuffle step\<close>








lemma content_renumbered [simp]: "content (renumbered cfg m i) = content m"
  by (simp add: content_def renumbered_def)





subsection \<open>The files of a run\<close>











section \<open>Properties of \<open>parseWeight\<close>\<close>

lemma lastIndexFrom_none:
  "(\<forall>j \<le> i. take (length d) (drop j s) \<noteq> d) \<Longrightarrow> lastIndexFrom s d i = - 1"
proof (induction i)
  case 0
  then show ?case by simp
next
  case (Suc i)
  then have "take (length d) (drop (Suc i) s) \<noteq> d" by blast
  moreover from Suc.prems have "\<forall>j \<le> i. take (length d) (drop j s) \<noteq> d" by simp
  ultimately show ?case using Suc.IH by simp
qed

lemma lastIndexFrom_last:
  "j \<le> i \<Longrightarrow> take (length d) (drop j s) = d \<Longrightarrow>
   (\<forall>j'. j < j' \<and> j' \<le> i \<longrightarrow> take (length d) (drop j' s) \<noteq> d) \<Longrightarrow>
   lastIndexFrom s d i = int j"
proof (induction i)
  case 0
  then show ?case by simp
next
  case (Suc i)
  show ?case
  proof (cases "j = Suc i")
    case True
    with Suc.prems(2) show ?thesis by simp
  next
    case False
    with Suc.prems(1) have le: "j \<le> i" by simp
    from Suc.prems(3) False Suc.prems(1) have "take (length d) (drop (Suc i) s) \<noteq> d"
      by (simp add: le_less)
    moreover from Suc.prems(3) have "\<forall>j'. j < j' \<and> j' \<le> i \<longrightarrow> take (length d) (drop j' s) \<noteq> d"
      by simp
    ultimately show ?thesis using Suc.IH [OF le Suc.prems(2)] by simp
  qed
qed

lemma take1_drop: "take (Suc 0) (drop j s) = [c] \<longleftrightarrow> j < length s \<and> s ! j = c"
proof (cases "j < length s")
  case True
  then have "drop j s = s ! j # drop (Suc j) s" by (simp add: Cons_nth_drop_Suc)
  with True show ?thesis by simp
next
  case False
  then show ?thesis by simp
qed

lemma lastIndexOf_absent: "c \<notin> set s \<Longrightarrow> lastIndexOf s [c] = - 1"
proof -
  assume c: "c \<notin> set s"
  have "take (length [c]) (drop j s) \<noteq> [c]" for j
    using c take1_drop [of j s c] by (auto simp: in_set_conv_nth)
  then have "lastIndexFrom s [c] i = - 1" for i
    by (intro lastIndexFrom_none) blast
  then show ?thesis by (simp add: lastIndexOf_def)
qed

lemma lastIndexOf_last: "c \<notin> set b \<Longrightarrow> lastIndexOf (a @ c # b) [c] = int (length a)"
proof -
  assume c: "c \<notin> set b"
  let ?s = "a @ c # b"
  have here: "take (length [c]) (drop (length a) ?s) = [c]" by simp
  have later: "take (length [c]) (drop j' ?s) \<noteq> [c]" if "length a < j'" for j'
  proof
    assume "take (length [c]) (drop j' ?s) = [c]"
    with take1_drop [of j' ?s c] have j': "j' < length ?s" "?s ! j' = c" by simp_all
    from that obtain m where m: "j' = length a + Suc m" by (metis less_imp_Suc_add add_Suc_right)
    with j' have "m < length b" "b ! m = c" by (simp_all add: nth_append)
    with c show False by (auto simp: in_set_conv_nth)
  qed
  have "lastIndexFrom ?s [c] (length ?s - length [c]) = int (length a)"
    by (rule lastIndexFrom_last [OF _ here]) (use later in simp_all)
  then show ?thesis by (simp add: lastIndexOf_def)
qed

lemma path_name_png:
  assumes "stem \<noteq> []" and "CHR ''/'' \<notin> set stem"
  shows "path_name (stem @ ''.png'') = stem"
proof -
  let ?p = "stem @ ''.png''"
  have q: "rev (dropWhile (\<lambda>c. c = CHR ''/'') (rev ?p)) = ?p" by simp
  from assms(2) have noslash: "\<forall>c \<in> set (rev ?p). c \<noteq> CHR ''/''" by auto
  then have "takeWhile (\<lambda>c. c \<noteq> CHR ''/'') (rev ?p) = rev ?p"
    by (simp only: takeWhile_eq_all_conv)
  then have base: "rev (takeWhile (\<lambda>c. c \<noteq> CHR ''/'') (rev ?p)) = ?p"
    by (simp only: rev_rev_ident)
  have "lastIndexOf (stem @ CHR ''.'' # ''png'') ''.'' = int (length stem)"
    by (rule lastIndexOf_last) simp
  then have d: "lastIndexOf ?p ''.'' = int (length stem)" by simp
  from assms(1) have "length stem \<noteq> 0" by simp
  moreover have "?p \<noteq> ''..''"
  proof
    assume "?p = ''..''"
    then have "length ?p = length ''..''" by (rule arg_cong)
    then show False by simp
  qed
  ultimately show ?thesis
    unfolding path_name_def q Let_def base d by simp
qed

lemma digit_val_decimal:
  "48 \<le> (of_char c :: nat) \<Longrightarrow> (of_char c :: nat) \<le> 57 \<Longrightarrow>
   digit_val c = Some (of_char c - 48)"
  by (simp add: digit_val_def Let_def)

lemma digits_value_decimal:
  "\<forall>c \<in> set ds. 48 \<le> (of_char c :: nat) \<and> (of_char c :: nat) \<le> 57 \<Longrightarrow>
   digits_value 10 ds acc = Some (foldl (\<lambda>acc c. 10 * acc + (of_char c - 48)) acc ds)"
proof (induction ds arbitrary: acc)
  case Nil
  then show ?case by simp
next
  case (Cons c cs)
  then have c: "48 \<le> (of_char c :: nat)" "(of_char c :: nat) \<le> 57" by simp_all
  then have "(of_char c :: nat) - 48 < 10" by simp
  with Cons digit_val_decimal [OF c] show ?case by (simp add: mult.commute)
qed

lemma digits_value_read: "decimal_digits ds \<Longrightarrow> digits_value 10 ds 0 = Some (read_nat ds)"
  by (simp add: decimal_digits_def read_nat_def digits_value_decimal)

lemma takeWhile_all: "\<forall>c \<in> set xs. P c \<Longrightarrow> takeWhile P xs = xs \<and> dropWhile P xs = []"
  by simp

lemma round_range_nat:
  assumes "0 < W" and "W \<le> 2 ^ 53"
  shows "round_range (of_nat W) = Fin (of_nat W)"
proof -
  have small: "(1::rat) / 2 ^ 1075 < 1" by simp
  have big: "(2::rat) ^ 53 < 2 ^ 1024 - 2 ^ 970" by simp
  from assms(1) have "(1::rat) \<le> of_nat W" by simp
  with small have a: "\<not> \<bar>of_nat W :: rat\<bar> \<le> 1 / 2 ^ 1075" by linarith
  from assms(2) have "(of_nat W :: rat) \<le> of_nat (2 ^ 53)" by (simp only: of_nat_le_iff)
  then have "(of_nat W :: rat) \<le> 2 ^ 53" by simp
  with big have b: "\<not> 2 ^ 1024 - 2 ^ 970 \<le> \<bar>of_nat W :: rat\<bar>" by linarith
  from a b show ?thesis unfolding round_range_def by (simp only: if_False)
qed

lemma unsigned_decimal_digits:
  assumes "decimal_digits ds"
  shows "unsigned_decimal ds = round_range (of_nat (read_nat ds))"
proof -
  from assms have ne: "ds \<noteq> []"
    and dig: "\<forall>c \<in> set ds. 48 \<le> (of_char c :: nat) \<and> (of_char c :: nat) \<le> 57"
    by (simp_all add: decimal_digits_def)
  have inf: "ds \<noteq> ''Infinity''"
  proof
    assume "ds = ''Infinity''"
    with dig have "48 \<le> (of_char CHR ''I'' :: nat) \<and> (of_char CHR ''I'' :: nat) \<le> 57" by simp
    then show False by simp
  qed
  have "\<forall>c \<in> set ds. c \<noteq> CHR ''e'' \<and> c \<noteq> CHR ''E''"
    using dig by auto
  then have e: "takeWhile (\<lambda>c. c \<noteq> CHR ''e'' \<and> c \<noteq> CHR ''E'') ds = ds"
    "dropWhile (\<lambda>c. c \<noteq> CHR ''e'' \<and> c \<noteq> CHR ''E'') ds = []"
    by simp_all
  have "\<forall>c \<in> set ds. c \<noteq> CHR ''.''"
    using dig by auto
  then have dot: "takeWhile (\<lambda>c. c \<noteq> CHR ''.'') ds = ds"
    "dropWhile (\<lambda>c. c \<noteq> CHR ''.'') ds = []"
    by simp_all
  note dv = digits_value_read [OF assms]
  show ?thesis
    unfolding unsigned_decimal_def Let_def e dot using inf ne by (simp add: dv)
qed

lemma digit_not_ws: "48 \<le> (of_char c :: nat) \<Longrightarrow> \<not> is_ws c"
  by (auto simp: is_ws_def)

lemma trim_id:
  assumes "s \<noteq> []" and "\<not> is_ws (hd s)" and "\<not> is_ws (last s)"
  shows "trim s = s"
proof -
  from assms(1,2) have "dropWhile is_ws s = s" by (cases s) simp_all
  moreover from assms(1,3) have "dropWhile is_ws (rev s) = rev s"
    by (cases "rev s") (simp_all add: last_rev [symmetric] del: last_rev)
  ultimately show ?thesis by (simp add: trim_def)
qed

lemma decimal_digits_mem:
  "decimal_digits ds \<Longrightarrow> c \<in> set ds \<Longrightarrow> 48 \<le> (of_char c :: nat) \<and> (of_char c :: nat) \<le> 57"
  by (simp add: decimal_digits_def)

lemma take2_prefix:
  assumes "take 2 s = [a, b]"
  shows "a \<in> set s \<and> b \<in> set s"
proof -
  have "set (take 2 s) \<subseteq> set s" by (rule set_take_subset)
  with assms show ?thesis by simp
qed

lemma js_Number_digits:
  assumes "decimal_digits ds"
  shows "js_Number ds = round_range (of_nat (read_nat ds))"
proof -
  from assms have ne: "ds \<noteq> []" by (simp add: decimal_digits_def)
  then have "hd ds \<in> set ds" "last ds \<in> set ds" by simp_all
  with decimal_digits_mem [OF assms] have hl: "48 \<le> (of_char (hd ds) :: nat)"
    "(of_char (hd ds) :: nat) \<le> 57" "48 \<le> (of_char (last ds) :: nat)"
    by blast+
  from trim_id [OF ne digit_not_ws [OF hl(1)] digit_not_ws [OF hl(3)]]
  have tr: "trim ds = ds" .
  have no: "take 2 ds \<noteq> [CHR ''0'', c]" if "c \<in> set ''xXoObB''" for c
  proof
    assume "take 2 ds = [CHR ''0'', c]"
    from take2_prefix [OF this] have "c \<in> set ds" by simp
    with decimal_digits_mem [OF assms] have "48 \<le> (of_char c :: nat) \<and> (of_char c :: nat) \<le> 57"
      by blast
    with that show False by auto
  qed
  have pre: "take 2 ds \<noteq> ''0x''" "take 2 ds \<noteq> ''0X''" "take 2 ds \<noteq> ''0o''"
    "take 2 ds \<noteq> ''0O''" "take 2 ds \<noteq> ''0b''" "take 2 ds \<noteq> ''0B''"
    using no by simp_all
  from hl(1,2) have sign: "hd ds \<noteq> CHR ''-''" "hd ds \<noteq> CHR ''+''" by auto
  show ?thesis
    unfolding js_Number_def Let_def tr
    using ne pre sign unsigned_decimal_digits [OF assms] by simp
qed

lemma js_Number_neg_digits:
  assumes "decimal_digits ds"
  shows "js_Number (CHR ''-'' # ds) = js_neg (round_range (of_nat (read_nat ds)))"
proof -
  let ?s = "CHR ''-'' # ds"
  from assms have ne: "ds \<noteq> []" by (simp add: decimal_digits_def)
  then have "last ds \<in> set ds" by simp
  with decimal_digits_mem [OF assms] have "48 \<le> (of_char (last ds) :: nat)" by blast
  then have "\<not> is_ws (last ?s)" using ne by (simp add: digit_not_ws)
  moreover have "\<not> is_ws (hd ?s)" by (simp add: is_ws_def)
  ultimately have tr: "trim ?s = ?s" by (intro trim_id) simp_all
  show ?thesis
    unfolding js_Number_def Let_def tr
    using unsigned_decimal_digits [OF assms] by simp
qed


lemma round_range_3: "round_range 3 = Fin 3"
  by (simp add: round_range_def)

lemma js_Number_minus_3: "js_Number ''-3'' = Fin (- 3)"
  by (simp add: js_Number_def trim_def is_ws_def unsigned_decimal_def digit_val_def round_range_3)


section \<open>C1: incompatible selections in the generation loop\<close>

text \<open>
  C1 at a failing input: layers A (x) and B (y), the rule \<open>A:x\<close> forbids \<open>B:y\<close>, one
  token, ceiling 10000. The only selection holds both traits and \<open>violatesIncompatibilities\<close>
  reports it. \<open>continue\<close> then jumps to the loop condition, which tests \<open>dna\<close>, still
  \<open>undefined\<close>, against the empty set: the loop ends after one attempt, the selection
  becomes token 1 and \<open>undefined\<close> is added to the fingerprint set.
\<close>

theorem incompatible_selection_accepted:
  "violatesIncompatibilities (mk_config 1 10000 [(''A:x'', [''B:y''])] [])
      [trait ''A'' ''x'' 0, trait ''B'' ''y'' 1]
   \<and> pickTraitsForLayers (mk_config 1 10000 [(''A:x'', [''B:y''])] [])
        [mk_layer ''A'' [''x''], mk_layer ''B'' [''y'']] (always 0) 0
      = Some [trait ''A'' ''x'' 0, trait ''B'' ''y'' 1]
   \<and> main (mk_config 1 10000 [(''A:x'', [''B:y''])] []) codeUnitCompare
        [mk_layer ''A'' [''x''], mk_layer ''B'' [''y'']] (always 0)
      = Some \<lparr>dnaSet = [None],
           allMetadata =
             [\<lparr>meta_name = ''Piggos #1'', meta_description = ''A collection'',
               image = ''ipfs://CID/1.png'', edition = 1,
               attributes = [(''A'', ''x''), (''B'', ''y'')], extra = []\<rparr>],
           imagePaths = [''1.png''], failures = 0, calls = 2,
           imageFiles = [(''1.png'', [''A/x.png'', ''B/y.png''])],
           metadataFiles =
             [(''1.json'',
               \<lparr>meta_name = ''Piggos #1'', meta_description = ''A collection'',
                 image = ''ipfs://CID/1.png'', edition = 1,
                 attributes = [(''A'', ''x''), (''B'', ''y'')], extra = []\<rparr>)]\<rparr>"
  by code_simp

section \<open>C2: how the search loop ends\<close>

text \<open>
  C2 as stated fails at ceiling 1: the first selection is compatible and its fingerprint is
  not in the set, yet the attempt counter has reached the ceiling, so the slot fails.
\<close>

theorem novel_selection_at_ceiling_counterexample:
  "search_loop (mk_config 1 1 [] []) codeUnitCompare [mk_layer ''A'' [''x'']] (always 0)
       (dnaSet init_state) (calls init_state) 0 None
     = Some ([trait ''A'' ''x'' 0], Some ''A:x'', 1, 1)
   \<and> \<not> violatesIncompatibilities (mk_config 1 1 [] []) [trait ''A'' ''x'' 0]
   \<and> dnaFromSelection codeUnitCompare [trait ''A'' ''x'' 0] = ''A:x''
   \<and> Some ''A:x'' \<notin> set (dnaSet init_state)
   \<and> token_slot (mk_config 1 1 [] []) codeUnitCompare [mk_layer ''A'' [''x'']] (always 0)
        init_state 1
     = Some (init_state\<lparr>failures := 1, calls := 1\<rparr>)"
  by code_simp


text \<open>
  C2, amended. For every token slot: a compatible selection whose fingerprint is absent
  from the set ends the loop at that attempt; when the loop has ended, the slot fails
  exactly when the attempt counter has reached the ceiling (also when the last selection
  is compatible and new), and then only the failure counter, which grows by 1, and the
  count of random calls change: no fingerprint is added and no token written. Otherwise
  the value of \<open>dna\<close> is absent from the set and is added, it is the fingerprint of the
  accepted selection whenever that selection is compatible, and one metadata record is
  appended. Every iteration increments the attempt counter: the counter equals the number
  of selections drawn, and it exceeds the ceiling only at the first attempt.
\<close>

theorem token_slot_outcome:
  assumes "search_loop cfg lc layers rnd (dnaSet st) (calls st) 0 None
             = Some (selection, dna, attempts, k')"
  shows "1 \<le> attempts \<and> k' = calls st + attempts * length layers
       \<and> (attempts = 1 \<or> int attempts \<le> uniqueDnaTorrance cfg)
       \<and> (uniqueDnaTorrance cfg \<le> int attempts \<longrightarrow>
            token_slot cfg lc layers rnd st n = Some (st\<lparr>failures := failures st + 1, calls := k'\<rparr>))
       \<and> (int attempts < uniqueDnaTorrance cfg \<longrightarrow>
            dna \<notin> set (dnaSet st)
            \<and> (\<not> violatesIncompatibilities cfg selection \<longrightarrow>
                  dna = Some (dnaFromSelection lc selection))
            \<and> (\<exists>st'. token_slot cfg lc layers rnd st n = Some st'
                  \<and> dnaSet st' = dnaSet st @ [dna]
                  \<and> failures st' = failures st
                  \<and> allMetadata st' =
                      allMetadata st @ [metadataForToken cfg n selection (image_uri cfg n)]))
       \<and> (\<forall>k a d sel. pickTraitsForLayers cfg layers rnd k = Some sel
              \<longrightarrow> \<not> violatesIncompatibilities cfg sel
              \<longrightarrow> Some (dnaFromSelection lc sel) \<notin> set (dnaSet st)
              \<longrightarrow> search_loop cfg lc layers rnd (dnaSet st) k a d
                    = Some (sel, Some (dnaFromSelection lc sel), a + 1, k + length layers))"
proof -
  note r = search_loop_result [OF assms]
  from r have a: "1 \<le> attempts" "k' = calls st + attempts * length layers"
    "attempts = 1 \<or> int attempts \<le> uniqueDnaTorrance cfg"
    by simp_all
  have fail: "token_slot cfg lc layers rnd st n = Some (st\<lparr>failures := failures st + 1, calls := k'\<rparr>)"
    if "uniqueDnaTorrance cfg \<le> int attempts"
    using that assms by (simp add: token_slot_def)
  have succ: "dna \<notin> set (dnaSet st)
            \<and> (\<not> violatesIncompatibilities cfg selection \<longrightarrow>
                  dna = Some (dnaFromSelection lc selection))
            \<and> (\<exists>st'. token_slot cfg lc layers rnd st n = Some st'
                  \<and> dnaSet st' = dnaSet st @ [dna]
                  \<and> failures st' = failures st
                  \<and> allMetadata st' =
                      allMetadata st @ [metadataForToken cfg n selection (image_uri cfg n)])"
    if lt: "int attempts < uniqueDnaTorrance cfg"
  proof -
    from r lt have new: "dna \<notin> set (dnaSet st)" by auto
    from r have d: "\<not> violatesIncompatibilities cfg selection \<longrightarrow>
                  dna = Some (dnaFromSelection lc selection)" by simp
    from lt assms new show ?thesis
      using d by (simp add: token_slot_def Let_def)
  qed
  have now: "search_loop cfg lc layers rnd (dnaSet st) k a d
                    = Some (sel, Some (dnaFromSelection lc sel), a + 1, k + length layers)"
    if "pickTraitsForLayers cfg layers rnd k = Some sel"
      "\<not> violatesIncompatibilities cfg sel"
      "Some (dnaFromSelection lc sel) \<notin> set (dnaSet st)" for k a d sel
    using that by (rule search_loop_exit_now)
  from a fail succ now show ?thesis by blast
qed

theorem token_slot_outcome_witness:
  "search_loop (mk_config 1 10 [] []) codeUnitCompare [mk_layer ''A'' [''x'', ''y'']]
       (draws [0, 3/4]) (dnaSet (init_state\<lparr>dnaSet := [Some ''A:x'']\<rparr>))
       (calls (init_state\<lparr>dnaSet := [Some ''A:x'']\<rparr>)) 0 None
     = Some ([trait ''A'' ''y'' 0], Some ''A:y'', 2, 2)
   \<and> (\<exists>st'. token_slot (mk_config 1 10 [] []) codeUnitCompare [mk_layer ''A'' [''x'', ''y'']]
          (draws [0, 3/4]) (init_state\<lparr>dnaSet := [Some ''A:x'']\<rparr>) 2 = Some st'
        \<and> dnaSet st' = [Some ''A:x'', Some ''A:y''] \<and> failures st' = 0)"
proof -
  let ?cfg = "mk_config 1 10 [] []"
  let ?st = "init_state\<lparr>dnaSet := [Some ''A:x'']\<rparr>"
  have run: "search_loop ?cfg codeUnitCompare [mk_layer ''A'' [''x'', ''y'']]
       (draws [0, 3/4]) (dnaSet ?st) (calls ?st) 0 None
     = Some ([trait ''A'' ''y'' 0], Some ''A:y'', 2, 2)"
    by code_simp
  have lt: "int 2 < uniqueDnaTorrance ?cfg" by (simp add: mk_config_def)
  from token_slot_outcome [OF run, of 2] lt
  obtain st' where st': "token_slot ?cfg codeUnitCompare [mk_layer ''A'' [''x'', ''y'']]
          (draws [0, 3/4]) ?st 2 = Some st'"
    "dnaSet st' = dnaSet ?st @ [Some ''A:y'']" "failures st' = failures ?st"
    by blast
  have "dnaSet ?st = [Some ''A:x'']" "failures ?st = 0"
    by (simp_all add: init_state_def)
  with st' have "dnaSet st' = [Some ''A:x'', Some ''A:y'']" "failures st' = 0"
    by simp_all
  with st'(1) run show ?thesis by blast
qed

section \<open>C3: fingerprints of accepted tokens\<close>

text \<open>
  C3 at a failing input: layers A (x, x|B:y) and B (y, y|B:y), the rule \<open>A:x\<close> forbids
  \<open>B:y|B:y\<close>, two tokens. The first selection drawn, (A:x, B:y|B:y), is incompatible and is
  accepted with \<open>dna\<close> undefined, as in C1. The second, (A:x|B:y, B:y), is compatible and
  new. Both selections have the fingerprint \<open>A:x|B:y|B:y\<close>. The set has two members for
  the two tokens (lemma \<open>token_loop_dnaSet\<close> shows that the sizes always agree).
\<close>

theorem colliding_tokens_accepted:
  "map_option dnaSet
     (main (mk_config 2 10000 [(''A:x'', [''B:y|B:y''])] []) codeUnitCompare
        [mk_layer ''A'' [''x'', ''x|B:y''], mk_layer ''B'' [''y'', ''y|B:y'']]
        (draws [0, 3/4, 3/4, 0, 0]))
     = Some [None, Some ''A:x|B:y|B:y'']
   \<and> map_option (map attributes) (map_option allMetadata
     (main (mk_config 2 10000 [(''A:x'', [''B:y|B:y''])] []) codeUnitCompare
        [mk_layer ''A'' [''x'', ''x|B:y''], mk_layer ''B'' [''y'', ''y|B:y'']]
        (draws [0, 3/4, 3/4, 0, 0])))
     = Some [[(''A'', ''x''), (''B'', ''y|B:y'')], [(''A'', ''x|B:y''), (''B'', ''y'')]]
   \<and> map_option failures
     (main (mk_config 2 10000 [(''A:x'', [''B:y|B:y''])] []) codeUnitCompare
        [mk_layer ''A'' [''x'', ''x|B:y''], mk_layer ''B'' [''y'', ''y|B:y'']]
        (draws [0, 3/4, 3/4, 0, 0]))
     = Some 0
   \<and> dnaFromSelection codeUnitCompare [trait ''A'' ''x'' 0, trait ''B'' ''y|B:y'' 1]
     = ''A:x|B:y|B:y''
   \<and> dnaFromSelection codeUnitCompare [trait ''A'' ''x|B:y'' 0, trait ''B'' ''y'' 1]
     = ''A:x|B:y|B:y''"
  by code_simp

section \<open>C4: the weight parsed from a file name\<close>

text \<open>
  C4 as stated gives weight 1 for a negative remainder. \<open>Number("-3")\<close> is -3, which is
  truthy, so \<open>|| 1\<close> keeps it: the file \<open>Name#-3.png\<close> has weight -3.
\<close>

theorem negative_weight_counterexample:
  "parseWeight (mk_config 1 10000 [] []) ''Name#-3.png'' = (''Name'', Fin (- 3))"
proof -
  have base: "path_name ''Name#-3.png'' = ''Name#-3''"
    using path_name_png [of "''Name#-3''"] by simp
  have idx: "lastIndexOf ''Name#-3'' ''#'' = 4"
    using lastIndexOf_last [of "CHR ''#''" "''-3''" "''Name''"] by simp
  show ?thesis
    by (simp add: parseWeight_def mk_config_def base idx js_Number_minus_3)
qed


text \<open>
  C4, amended, for the delimiter \<open>#\<close> and a file \<open>stem.png\<close> in a trait folder: without
  the delimiter the name is the stem and the weight is 1. With the stem \<open>Name#rest\<close>
  (the last delimiter), the name is \<open>Name\<close> and the weight is 1 when \<open>Number(rest)\<close> is
  NaN or zero (a missing, non-numeric or zero remainder) and \<open>Number(rest)\<close> otherwise: it
  is W for decimal digits denoting a positive integer W (up to \<open>2^53\<close>, where a double
  is exact), and it is -W for a minus sign followed by such digits.
\<close>

theorem parseWeight_weight:
  assumes "rarityDelimiter cfg = ''#''" and "stem \<noteq> []" and "CHR ''/'' \<notin> set stem"
  shows "(CHR ''#'' \<notin> set stem \<longrightarrow> parseWeight cfg (stem @ ''.png'') = (stem, Fin 1))
       \<and> (\<forall>nm rest. stem = nm @ ''#'' @ rest \<and> CHR ''#'' \<notin> set rest \<longrightarrow>
             fst (parseWeight cfg (stem @ ''.png'')) = nm
           \<and> snd (parseWeight cfg (stem @ ''.png''))
               = (if js_Number rest = NaN \<or> js_Number rest = Fin 0 then Fin 1 else js_Number rest)
           \<and> (rest = [] \<longrightarrow> snd (parseWeight cfg (stem @ ''.png'')) = Fin 1)
           \<and> (decimal_digits rest \<and> read_nat rest = 0 \<longrightarrow>
                 snd (parseWeight cfg (stem @ ''.png'')) = Fin 1)
           \<and> (decimal_digits rest \<and> 0 < read_nat rest \<and> read_nat rest \<le> 2 ^ 53 \<longrightarrow>
                 snd (parseWeight cfg (stem @ ''.png'')) = Fin (of_nat (read_nat rest)))
           \<and> (\<forall>ds. rest = CHR ''-'' # ds \<and> decimal_digits ds \<and> 0 < read_nat ds
                     \<and> read_nat ds \<le> 2 ^ 53 \<longrightarrow>
                 snd (parseWeight cfg (stem @ ''.png'')) = Fin (- of_nat (read_nat ds))))"
proof -
  note base = path_name_png [OF assms(2,3)]
  have absent: "parseWeight cfg (stem @ ''.png'') = (stem, Fin 1)" if "CHR ''#'' \<notin> set stem"
    using lastIndexOf_absent [OF that] assms(1) by (simp add: parseWeight_def base)
  have present: "fst (parseWeight cfg (stem @ ''.png'')) = nm
           \<and> snd (parseWeight cfg (stem @ ''.png''))
               = (if js_Number rest = NaN \<or> js_Number rest = Fin 0 then Fin 1 else js_Number rest)"
    if "stem = nm @ ''#'' @ rest" "CHR ''#'' \<notin> set rest" for nm rest
  proof -
    from that have idx: "lastIndexOf stem ''#'' = int (length nm)"
      using lastIndexOf_last [of "CHR ''#''" rest nm] by simp
    have t: "truthy w \<longleftrightarrow> \<not> (w = NaN \<or> w = Fin 0)" for w by (cases w) simp_all
    from that(1) have "take (length nm) stem = nm" "drop (Suc (length nm)) stem = rest"
      by simp_all
    then show ?thesis
      using assms(1) idx by (simp add: parseWeight_def base Let_def t nat_add_distrib)
  qed
  have missing: "js_Number [] = Fin 0" by (simp add: js_Number_def trim_def)
  have zero: "js_Number rest = Fin 0" if "decimal_digits rest" "read_nat rest = 0" for rest
    using js_Number_digits [OF that(1)] that(2) by (simp add: round_range_def)
  have pos: "js_Number rest = Fin (of_nat (read_nat rest))"
    if "decimal_digits rest" "0 < read_nat rest" "read_nat rest \<le> 2 ^ 53" for rest
    using js_Number_digits [OF that(1)] round_range_nat [OF that(2,3)] by simp
  have neg: "js_Number (CHR ''-'' # ds) = Fin (- of_nat (read_nat ds))"
    if "decimal_digits ds" "0 < read_nat ds" "read_nat ds \<le> 2 ^ 53" for ds
    using js_Number_neg_digits [OF that(1)] round_range_nat [OF that(2,3)] by simp
  show ?thesis
  proof (intro conjI allI impI)
    show "parseWeight cfg (stem @ ''.png'') = (stem, Fin 1)" if "CHR ''#'' \<notin> set stem"
      using that by (rule absent)
  next
    fix nm rest assume a: "stem = nm @ ''#'' @ rest \<and> CHR ''#'' \<notin> set rest"
    then have p: "fst (parseWeight cfg (stem @ ''.png'')) = nm"
      "snd (parseWeight cfg (stem @ ''.png''))
               = (if js_Number rest = NaN \<or> js_Number rest = Fin 0 then Fin 1 else js_Number rest)"
      using present by blast+
    show "fst (parseWeight cfg (stem @ ''.png'')) = nm" by (rule p(1))
    show "snd (parseWeight cfg (stem @ ''.png''))
               = (if js_Number rest = NaN \<or> js_Number rest = Fin 0 then Fin 1 else js_Number rest)"
      by (rule p(2))
    show "snd (parseWeight cfg (stem @ ''.png'')) = Fin 1" if "rest = []"
      using p(2) that missing by simp
    show "snd (parseWeight cfg (stem @ ''.png'')) = Fin 1"
      if "decimal_digits rest \<and> read_nat rest = 0"
      using p(2) that zero by simp
    show "snd (parseWeight cfg (stem @ ''.png'')) = Fin (of_nat (read_nat rest))"
      if "decimal_digits rest \<and> 0 < read_nat rest \<and> read_nat rest \<le> 2 ^ 53"
      using p(2) that pos [of rest] by simp
    show "snd (parseWeight cfg (stem @ ''.png'')) = Fin (- of_nat (read_nat ds))"
      if "rest = CHR ''-'' # ds \<and> decimal_digits ds \<and> 0 < read_nat ds \<and> read_nat ds \<le> 2 ^ 53"
      for ds
      using p(2) that neg [of ds] by simp
  qed
qed

theorem parseWeight_weight_witness:
  "parseWeight (mk_config 1 10000 [] []) ''Name#30.png'' = (''Name'', Fin 30)
   \<and> parseWeight (mk_config 1 10000 [] []) ''Name.png'' = (''Name'', Fin 1)
   \<and> parseWeight (mk_config 1 10000 [] []) ''Name#0.png'' = (''Name'', Fin 1)
   \<and> parseWeight (mk_config 1 10000 [] []) ''Name#.png'' = (''Name'', Fin 1)"
proof -
  let ?cfg = "mk_config 1 10000 [] []"
  have d: "rarityDelimiter ?cfg = ''#''" by (simp add: mk_config_def)
  have dig: "decimal_digits ''30''" "decimal_digits ''0''" by (simp_all add: decimal_digits_def)
  have val: "read_nat ''30'' = 30" "read_nat ''0'' = 0" by (simp_all add: read_nat_def)
  have s1: "''Name#30'' \<noteq> []" "CHR ''/'' \<notin> set ''Name#30''" by simp_all
  have s2: "''Name'' \<noteq> []" "CHR ''/'' \<notin> set ''Name''" by simp_all
  have s3: "''Name#0'' \<noteq> []" "CHR ''/'' \<notin> set ''Name#0''" by simp_all
  have s4: "''Name#'' \<noteq> []" "CHR ''/'' \<notin> set ''Name#''" by simp_all
  have split1: "''Name#30'' = ''Name'' @ ''#'' @ ''30'' \<and> CHR ''#'' \<notin> set ''30''" by simp
  have split3: "''Name#0'' = ''Name'' @ ''#'' @ ''0'' \<and> CHR ''#'' \<notin> set ''0''" by simp
  have split4: "''Name#'' = ''Name'' @ ''#'' @ '''' \<and> CHR ''#'' \<notin> set ''''" by simp
  have e: "''Name#30'' @ ''.png'' = ''Name#30.png''" "''Name'' @ ''.png'' = ''Name.png''"
    "''Name#0'' @ ''.png'' = ''Name#0.png''" "''Name#'' @ ''.png'' = ''Name#.png''"
    by simp_all
  note t1 = parseWeight_weight [OF d s1, THEN conjunct2, rule_format, OF split1, unfolded e]
  note t2 = parseWeight_weight [OF d s2, THEN conjunct1, unfolded e]
  note t3 = parseWeight_weight [OF d s3, THEN conjunct2, rule_format, OF split3, unfolded e]
  note t4 = parseWeight_weight [OF d s4, THEN conjunct2, rule_format, OF split4, unfolded e]
  have pos: "0 < read_nat ''30''" "read_nat ''30'' \<le> 2 ^ 53" by (simp_all add: val)
  from t1 have f1: "fst (parseWeight ?cfg ''Name#30.png'') = ''Name''" by blast
  from t1 dig(1) pos have "snd (parseWeight ?cfg ''Name#30.png'') = Fin (of_nat (read_nat ''30''))"
    by blast
  then have w1: "snd (parseWeight ?cfg ''Name#30.png'') = Fin 30" by (simp only: val) simp
  from f1 w1 have 1: "parseWeight ?cfg ''Name#30.png'' = (''Name'', Fin 30)"
    by (intro prod_eqI) simp_all
  from t2 have 2: "parseWeight ?cfg ''Name.png'' = (''Name'', Fin 1)" by simp
  from t3 have f3: "fst (parseWeight ?cfg ''Name#0.png'') = ''Name''" by blast
  from t3 dig(2) val(2) have w3: "snd (parseWeight ?cfg ''Name#0.png'') = Fin 1" by blast
  from f3 w3 have 3: "parseWeight ?cfg ''Name#0.png'' = (''Name'', Fin 1)"
    by (intro prod_eqI) simp_all
  from t4 have f4: "fst (parseWeight ?cfg ''Name#.png'') = ''Name''" by blast
  from t4 have w4: "snd (parseWeight ?cfg ''Name#.png'') = Fin 1" by blast
  from f4 w4 have 4: "parseWeight ?cfg ''Name#.png'' = (''Name'', Fin 1)"
    by (intro prod_eqI) simp_all
  from 1 2 3 4 show ?thesis by simp
qed

section \<open>C5: a requirement whose value is not in the catalog\<close>

text \<open>
  C5 at a failing input: the catalog has the layers Eye (Laser) and Mouth (Smile), and the
  rule \<open>Eye:Laser\<close> requires \<open>Mouth:Fangs\<close>, a value the catalog does not have. The
  in-place branch does not look the value up: the Mouth pick is renamed to Fangs and keeps
  the asset of Smile. (The append branch does look the value up and adds nothing.)
\<close>


theorem missing_value_overrides_in_place:
  "pickTraitsForLayers (mk_config 1 10000 [] [(''Eye:Laser'', [''Mouth:Fangs''])])
     [mk_layer ''Eye'' [''Laser''], mk_layer ''Mouth'' [''Smile'']] (always 0) 0
   = Some [trait ''Eye'' ''Laser'' 0,
           \<lparr>id_elem = ''Mouth:Fangs'', layer = ''Mouth'', name = ''Fangs'', weight = Fin 1,
            path = ''Mouth/Smile.png'', order' = 1\<rparr>]
   \<and> draw_layers [mk_layer ''Eye'' [''Laser''], mk_layer ''Mouth'' [''Smile'']] (always 0) 0 [] 0
   = Some ([trait ''Eye'' ''Laser'' 0, trait ''Mouth'' ''Smile'' 1], 2)
   \<and> find (\<lambda>e. name e = ''Fangs'') (elements (mk_layer ''Mouth'' [''Smile''])) = None"
  by code_simp

section \<open>C6: requirement rules\<close>




section \<open>C7: the fingerprint and the insertion order\<close>

text \<open>
  C7 as stated (any two selections holding the same set of (layer, value) pairs have the
  same fingerprint) fails where a layer name occurs twice: the sort compares layer names
  only and is stable, so two traits of one layer name keep their insertion order.
\<close>

theorem dna_order_dependent_counterexample:
  "set (pairs [trait ''Hat'' ''a'' 0, trait ''Hat'' ''b'' 1])
     = set (pairs [trait ''Hat'' ''b'' 0, trait ''Hat'' ''a'' 1])
   \<and> dnaFromSelection codeUnitCompare [trait ''Hat'' ''a'' 0, trait ''Hat'' ''b'' 1]
     \<noteq> dnaFromSelection codeUnitCompare [trait ''Hat'' ''b'' 0, trait ''Hat'' ''a'' 1]"
  by (simp add: pairs_def trait_def dnaFromSelection_def insert_commute)


text \<open>
  C7, amended: two selections in which every layer name occurs at most once and which hold
  the same set of (layer, value) pairs have the same fingerprint, whatever the insertion
  order, for every collation that is a strict linear order on layer names.
\<close>

theorem dna_order_independent:
  assumes "collation lc"
    and "distinct (map layer s1)" and "distinct (map layer s2)"
    and "set (pairs s1) = set (pairs s2)"
  shows "dnaFromSelection lc s1 = dnaFromSelection lc s2"
proof -
  have "map fst (pairs s1) = map layer s1" "map fst (pairs s2) = map layer s2"
    by (simp_all add: pairs_def)
  with assms show ?thesis
    by (simp add: dna_pairs sort_by_key_unique [of lc "pairs s1" "pairs s2"])
qed

theorem dna_order_independent_witness:
  "dnaFromSelection codeUnitCompare [trait ''Base'' ''Alien'' 0, trait ''Head'' ''Crown'' 1]
     = dnaFromSelection codeUnitCompare [trait ''Head'' ''Crown'' 0, trait ''Base'' ''Alien'' 1]
   \<and> dnaFromSelection codeUnitCompare [trait ''Head'' ''Crown'' 0, trait ''Base'' ''Alien'' 1]
     = ''Base:Alien|Head:Crown''"
proof -
  have "dnaFromSelection codeUnitCompare [trait ''Base'' ''Alien'' 0, trait ''Head'' ''Crown'' 1]
     = dnaFromSelection codeUnitCompare [trait ''Head'' ''Crown'' 0, trait ''Base'' ''Alien'' 1]"
    by (rule dna_order_independent [OF collation_codeUnitCompare])
       (simp_all add: pairs_def trait_def insert_commute)
  moreover have "dnaFromSelection codeUnitCompare [trait ''Head'' ''Crown'' 0, trait ''Base'' ''Alien'' 1]
     = ''Base:Alien|Head:Crown''"
    by (simp add: trait_def dnaFromSelection_def)
  ultimately show ?thesis by simp
qed

section \<open>C8: the shuffle step\<close>




section \<open>C9: one trait per catalog layer\<close>

text \<open>
  C9: on a catalog as \<open>readLayers\<close> builds it, every selection \<open>pickTraitsForLayers\<close>
  returns holds exactly one trait per catalog layer, in layer order. The first loop
  already draws one element from every layer; every layer name is then either present in
  the selection or absent from the catalog, so the mandatory-layer loop returns the array
  as it got it, and the requirement loop leaves the counter \<open>order\<close> at the number of
  layers: neither appends a trait.
\<close>

theorem pickTraitsForLayers_one_per_layer:
  assumes "catalog_ok layers"
    and "pickTraitsForLayers cfg layers rnd k = Some selection"
  shows "map layer selection = map id_layer layers
       \<and> (\<exists>drawn. draw_layers layers rnd k [] 0 = Some (drawn, length layers)
             \<and> map layer drawn = map id_layer layers
             \<and> (\<forall>m. find (\<lambda>p. layer p = m) drawn \<noteq> None
                      \<or> find (\<lambda>l. id_layer l = m) layers = None)
             \<and> mandatory_loop layers (mandatoryLayers cfg) drawn (length layers)
                 = Some (drawn, length layers)
             \<and> requires_loop layers (enforceRequirements cfg drawn) drawn (length layers)
                 = Some (selection, length layers))"
proof -
  from pickTraits_stages [OF assms] obtain drawn where
    d: "draw_layers layers rnd k [] 0 = Some (drawn, length layers)"
      "map layer drawn = map id_layer layers"
      "represented layers drawn"
      "mandatory_loop layers (mandatoryLayers cfg) drawn (length layers)
         = Some (drawn, length layers)"
      "requires_loop layers (enforceRequirements cfg drawn) drawn (length layers)
         = Some (selection, length layers)"
    by blast
  from requires_loop_frame [OF d(3) distinct_enforceRequirements d(5)] d(2)
  have "map layer selection = map id_layer layers" by simp
  moreover have "find (\<lambda>p. layer p = m) drawn \<noteq> None \<or> find (\<lambda>l. id_layer l = m) layers = None"
    for m
    using d(3) unfolding represented_def find_None_iff by (metis imageE imageI subsetD)
  ultimately show ?thesis using d by blast
qed

theorem pickTraitsForLayers_one_per_layer_witness:
  "catalog_ok [mk_layer ''Eye'' [''Laser'', ''Plain''], mk_layer ''Mouth'' [''Smile'', ''Frown'']]
   \<and> pickTraitsForLayers (mk_config 1 10000 [] [(''Eye:Laser'', [''Mouth:Fangs''])])
        [mk_layer ''Eye'' [''Laser'', ''Plain''], mk_layer ''Mouth'' [''Smile'', ''Frown'']] (always 0) 0
      = Some [trait ''Eye'' ''Laser'' 0, forced (trait ''Mouth'' ''Smile'' 1) ''Mouth'' ''Fangs'']
   \<and> map layer [trait ''Eye'' ''Laser'' 0, forced (trait ''Mouth'' ''Smile'' 1) ''Mouth'' ''Fangs'']
      = [''Eye'', ''Mouth'']"
proof -
  let ?cat = "[mk_layer ''Eye'' [''Laser'', ''Plain''], mk_layer ''Mouth'' [''Smile'', ''Frown'']]"
  let ?cfg = "mk_config 1 10000 [] [(''Eye:Laser'', [''Mouth:Fangs''])]"
  let ?sel = "[trait ''Eye'' ''Laser'' 0, forced (trait ''Mouth'' ''Smile'' 1) ''Mouth'' ''Fangs'']"
  have ok: "catalog_ok ?cat"
    by (simp add: catalog_ok_def mk_layer_def elem_def)
  have run: "pickTraitsForLayers ?cfg ?cat (always 0) 0 = Some ?sel"
    by code_simp
  from pickTraitsForLayers_one_per_layer [OF ok run] ok run show ?thesis
    by (simp add: mk_layer_def)
qed

section \<open>C10: what an in-place override changes\<close>

text \<open>
  C10: when the requirement map holds an entry for a layer that has a pick, the override
  replaces that pick by a copy in which only \<open>name\<close> and \<open>id\<close> differ; asset path and
  render order stay those of the element drawn. The stack \<open>composeImage\<close> composites is
  therefore the one of the drawn selection, while the attribute list of the metadata
  reports the forced value name.
\<close>

theorem override_keeps_asset_and_order:
  assumes "catalog_ok layers"
    and "draw_layers layers rnd k [] 0 = Some (drawn, n)"
    and "pickTraitsForLayers cfg layers rnd k = Some selection"
    and "(layerName, Some valueName) \<in> set (enforceRequirements cfg drawn)"
    and "findIndex (\<lambda>p. layer p = layerName) drawn = Some idx"
  shows "selection ! idx = (drawn ! idx)\<lparr>name := valueName, id_elem := traitKey layerName valueName\<rparr>
       \<and> path (selection ! idx) = path (drawn ! idx)
       \<and> order' (selection ! idx) = order' (drawn ! idx)
       \<and> map path selection = map path drawn
       \<and> map order' selection = map order' drawn
       \<and> composeImage selection = composeImage drawn
       \<and> composeImage selection ! idx = path (drawn ! idx)
       \<and> attributes (metadataForToken cfg tokenId selection uri) ! idx = (layerName, valueName)"
proof -
  from pickTraits_stages [OF assms(1,3)] assms(2) have
    ord: "map order' drawn = [0 ..< length layers]"
    and rep: "represented layers drawn"
    and run: "requires_loop layers (enforceRequirements cfg drawn) drawn (length layers)
         = Some (selection, length layers)"
    by auto
  note dist = distinct_enforceRequirements [of cfg drawn]
  from assms(4) dist have look: "map_of (enforceRequirements cfg drawn) layerName = Some (Some valueName)"
    by simp
  from findIndex_Some [OF assms(5)] have idx: "idx < length drawn" "layer (drawn ! idx) = layerName"
    by auto
  from requires_loop_result [OF rep dist run] idx assms(5) look
  have at: "selection ! idx = forced (drawn ! idx) layerName valueName"
    and len: "length selection = length drawn"
    by auto
  from requires_loop_frame [OF rep dist run]
  have frame: "map path selection = map path drawn" "map order' selection = map order' drawn"
    by auto
  from frame(2) ord have ord': "map order' selection = [0 ..< length layers]" by simp
  have ci: "composeImage selection = map path selection" "composeImage drawn = map path drawn"
    by (simp_all add: composeImage_def sort_by_order_id [OF ord] sort_by_order_id [OF ord'])
  have "attributes (metadataForToken cfg tokenId selection uri) = map (\<lambda>s. (layer s, name s)) selection"
    by (simp add: metadataForToken_def sort_by_order_id [OF ord'])
  with at idx len have attr: "attributes (metadataForToken cfg tokenId selection uri) ! idx = (layerName, valueName)"
    by simp
  from ci frame idx have "composeImage selection ! idx = path (drawn ! idx)" by simp
  with at frame ci attr show ?thesis by (simp add: forced_def)
qed

theorem override_keeps_asset_and_order_witness:
  "catalog_ok [mk_layer ''Eye'' [''Laser'', ''Plain''], mk_layer ''Mouth'' [''Smile'', ''Frown'']]
   \<and> draw_layers [mk_layer ''Eye'' [''Laser'', ''Plain''], mk_layer ''Mouth'' [''Smile'', ''Frown'']]
        (always 0) 0 [] 0
      = Some ([trait ''Eye'' ''Laser'' 0, trait ''Mouth'' ''Smile'' 1], 2)
   \<and> pickTraitsForLayers (mk_config 1 10000 [] [(''Eye:Laser'', [''Mouth:Frown''])])
        [mk_layer ''Eye'' [''Laser'', ''Plain''], mk_layer ''Mouth'' [''Smile'', ''Frown'']] (always 0) 0
      = Some [trait ''Eye'' ''Laser'' 0, forced (trait ''Mouth'' ''Smile'' 1) ''Mouth'' ''Frown'']
   \<and> composeImage [trait ''Eye'' ''Laser'' 0, forced (trait ''Mouth'' ''Smile'' 1) ''Mouth'' ''Frown'']
      = [''Eye/Laser.png'', ''Mouth/Smile.png'']
   \<and> attributes (metadataForToken (mk_config 1 10000 [] [(''Eye:Laser'', [''Mouth:Frown''])]) 1
        [trait ''Eye'' ''Laser'' 0, forced (trait ''Mouth'' ''Smile'' 1) ''Mouth'' ''Frown''] ''u'') ! 1
      = (''Mouth'', ''Frown'')"
proof -
  let ?cat = "[mk_layer ''Eye'' [''Laser'', ''Plain''], mk_layer ''Mouth'' [''Smile'', ''Frown'']]"
  let ?cfg = "mk_config 1 10000 [] [(''Eye:Laser'', [''Mouth:Frown''])]"
  let ?drawn = "[trait ''Eye'' ''Laser'' 0, trait ''Mouth'' ''Smile'' 1]"
  let ?sel = "[trait ''Eye'' ''Laser'' 0, forced (trait ''Mouth'' ''Smile'' 1) ''Mouth'' ''Frown'']"
  have ok: "catalog_ok ?cat"
    by (simp add: catalog_ok_def mk_layer_def elem_def)
  have draw: "draw_layers ?cat (always 0) 0 [] 0 = Some (?drawn, 2)"
    by code_simp
  have run: "pickTraitsForLayers ?cfg ?cat (always 0) 0 = Some ?sel"
    by code_simp
  have must: "(''Mouth'', Some ''Frown'') \<in> set (enforceRequirements ?cfg ?drawn)"
    by code_simp
  have fi: "findIndex (\<lambda>p. layer p = ''Mouth'') ?drawn = Some 1"
    by code_simp
  have comp: "composeImage ?drawn = [''Eye/Laser.png'', ''Mouth/Smile.png'']"
    by code_simp
  from override_keeps_asset_and_order [OF ok draw run must fi, of 1 "''u''"] ok draw run comp
  show ?thesis by simp
qed

end
